theory Spec2Isabelle
  imports Main "HOL-Library.Word"
begin

section \<open>The firmware server of backdoor-framework.c\<close>

text \<open>
  The server keeps a table of 256 byte-valued variables, reads one-byte commands with
  their one-byte arguments from a client connection, and calls \<open>server_interrupt\<close>
  after each command. The model follows the C source function by function, with the
  global table passed in and out. What the source prints on standard output is kept as
  a list of events, one per \<open>fputs\<close> or \<open>printf\<close> (the table printed by
  \<open>show_variables\<close> is one event). The client half of the program, which turns its
  command line into the bytes of one command and writes them, is not modelled beyond the
  bytes it sends.
\<close>

type_synonym u8 = "8 word"

subsection \<open>Constants of the two enumerations\<close>

text \<open>\<open>enum ClientCommand\<close>: the command byte is compared as an \<open>unsigned char\<close>.\<close>

definition CMD_NOP :: u8 where "CMD_NOP = 0"
definition CMD_EXIT :: u8 where "CMD_EXIT = 1"
definition CMD_SET_VARIABLE :: u8 where "CMD_SET_VARIABLE = 2"

text \<open>\<open>enum VariableName\<close>: indices into the table.\<close>

definition VAR_UNUSED :: nat where "VAR_UNUSED = 0"
definition VAR_VOLTAGE :: nat where "VAR_VOLTAGE = 1"
definition VAR_AMPERAGE :: nat where "VAR_AMPERAGE = 2"
definition VAR_MIN_VOLTAGE :: nat where "VAR_MIN_VOLTAGE = 3"
definition VAR_MAX_VOLTAGE :: nat where "VAR_MAX_VOLTAGE = 4"
definition VAR_CIRCUIT_BREAKER :: nat where "VAR_CIRCUIT_BREAKER = 5"
definition VAR_LAST :: nat where "VAR_LAST = 6"

lemmas enum_defs =
  CMD_NOP_def CMD_EXIT_def CMD_SET_VARIABLE_def
  VAR_UNUSED_def VAR_VOLTAGE_def VAR_AMPERAGE_def VAR_MIN_VOLTAGE_def
  VAR_MAX_VOLTAGE_def VAR_CIRCUIT_BREAKER_def VAR_LAST_def

subsection \<open>The variable table\<close>

text \<open>
  \<open>static uint8_t vars[256]\<close> is a list of bytes; the C initialiser gives the first six
  entries and leaves the other 250 zero. The array has 256 entries for its whole life:
  \<open>vars_ok\<close> says so, and every table the server can hold satisfies it.
\<close>

definition vars_init :: "u8 list" where
  "vars_init = [0, 240, 0, 235, 245, 1] @ replicate 250 0"

definition vars_ok :: "u8 list \<Rightarrow> bool" where
  "vars_ok vars = (length vars = 256)"

subsection \<open>Output events\<close>

datatype event =
    Command_nop                     \<comment> \<open>"command: nop"\<close>
  | Command_exit                    \<comment> \<open>"command: exit"\<close>
  | Command_set u8 u8               \<comment> \<open>"command: set variable[%u] = %u"\<close>
  | Unknown_command u8              \<comment> \<open>"unknown command: %u"\<close>
  | Server_interrupt                \<comment> \<open>"server interrupt"\<close>
  | Breaker_tripped                 \<comment> \<open>"*** PROTECTED: circuit breaker tripped"\<close>
  | Variables "(nat \<times> string option \<times> u8) list"
      \<comment> \<open>"variables:" and one line per row: index, name, value\<close>

subsection \<open>\<open>variable_name\<close>\<close>

text \<open>
  The conversion \<open>%u\<close> of \<open>sprintf\<close>: an unsigned number in decimal, without
  leading zeros.
\<close>

fun decimal :: "nat \<Rightarrow> string" where
  "decimal n =
     (if n < 10 then [''0123456789'' ! n]
      else decimal (n div 10) @ [''0123456789'' ! (n mod 10)])"

declare decimal.simps [simp del]

text \<open>
  The result is a C string pointer: \<open>None\<close> is \<open>NULL\<close>. For an index without a
  name the source formats \<open>var[%u]\<close> into its static buffer and returns the buffer.
\<close>

definition variable_name :: "nat \<Rightarrow> bool \<Rightarrow> string option" where
  "variable_name name use_default =
     (if name = VAR_UNUSED then Some ''unused''
      else if name = VAR_VOLTAGE then Some ''voltage''
      else if name = VAR_AMPERAGE then Some ''amperage''
      else if name = VAR_MIN_VOLTAGE then Some ''min_voltage''
      else if name = VAR_MAX_VOLTAGE then Some ''max_voltage''
      else if name = VAR_CIRCUIT_BREAKER then Some ''circuit_breaker''
      else if \<not> use_default then None
      else Some (''var['' @ decimal name @ '']''))"

subsection \<open>\<open>show_variables\<close>\<close>

text \<open>
  The loop \<open>for (i=0; i<256; ++i)\<close> prints a row for each index that has a name or a
  non-zero value; the row holds the three arguments of its \<open>printf\<close>.
\<close>

definition show_variables :: "u8 list \<Rightarrow> (nat \<times> string option \<times> u8) list" where
  "show_variables vars =
     map (\<lambda>i. (i, variable_name i True, vars ! i))
       (filter (\<lambda>i. variable_name i False \<noteq> None \<or> vars ! i \<noteq> 0) [0..<256])"

subsection \<open>\<open>trip_breaker_based_on_voltage\<close> and \<open>server_interrupt\<close>\<close>

text \<open>
  The comparisons are on \<open>uint8_t\<close> values promoted to \<open>int\<close>, that is on the
  unsigned values, which is the order of \<open>8 word\<close>.
\<close>

definition trip_breaker_based_on_voltage :: "u8 list \<Rightarrow> u8 list \<times> event list" where
  "trip_breaker_based_on_voltage vars =
     (let trip = (vars ! VAR_CIRCUIT_BREAKER \<noteq> 0 \<and>
                  (vars ! VAR_VOLTAGE < vars ! VAR_MIN_VOLTAGE \<or>
                   vars ! VAR_VOLTAGE > vars ! VAR_MAX_VOLTAGE))
      in if trip then (vars[VAR_CIRCUIT_BREAKER := 0], [Breaker_tripped])
         else (vars, []))"

definition server_interrupt :: "u8 list \<Rightarrow> u8 list \<times> event list" where
  "server_interrupt vars =
     (case trip_breaker_based_on_voltage vars of
        (vars', tripped) \<Rightarrow>
          (vars', [Server_interrupt] @ tripped @ [Variables (show_variables vars')]))"

subsection \<open>The client connection\<close>

text \<open>
  A connection is a stream socket. What the peer sends before it closes reaches the
  server in segments, each the bytes that become available together. A \<open>read\<close> of up
  to \<open>n\<close> bytes blocks until bytes are available and then returns what is left of the
  current segment, at most \<open>n\<close> bytes of it; it returns nothing only when the stream
  has ended. So a read that asks for two bytes can return one while more bytes follow
  later. A peer whose bytes are all there before the server reads is the one-segment
  stream \<open>[bytes]\<close>, on which a read is short only at the end. A failing \<open>read\<close>
  takes the same branch of the source as the end of the stream and is not told apart.
\<close>

fun read_bytes :: "nat \<Rightarrow> u8 list list \<Rightarrow> u8 list \<times> u8 list list" where
  "read_bytes n [] = ([], [])"
| "read_bytes n (seg # segs) =
     (if seg = [] then read_bytes n segs else (take n seg, drop n seg # segs))"

text \<open>
  \<open>read(client, buf, n)\<close>: the bytes read overwrite the front of the buffer and the rest
  of the buffer keeps what it held. The result is the buffer, the return value of
  \<open>read\<close> and the rest of the stream.
\<close>

definition read_into :: "u8 list \<Rightarrow> nat \<Rightarrow> u8 list list \<Rightarrow> u8 list \<times> nat \<times> u8 list list" where
  "read_into buf n client =
     (case read_bytes n client of
        (bytes, client') \<Rightarrow> (bytes @ drop (length bytes) buf, length bytes, client'))"

subsection \<open>\<open>process_client_commands\<close>\<close>

text \<open>
  One pass through the body of \<open>while (1)\<close>: \<open>Return\<close> when the first read gets
  nothing, \<open>Exit\<close> for \<open>unlink(SERVER_ADDR); exit(0)\<close>, otherwise \<open>Next\<close> with the
  table, the rest of the stream and the events of this pass.
\<close>

datatype step =
    Return
  | Exit "event list"
  | Next "u8 list" "u8 list list" "event list"

definition loop_body :: "u8 list \<Rightarrow> u8 list list \<Rightarrow> step" where
  "loop_body vars client =
     (case read_into [CMD_NOP] 1 client of
        (buf, got, client1) \<Rightarrow>
          if got \<le> 0 then Return
          else
            let command = buf ! 0 in
            if command = CMD_NOP then
              (case server_interrupt vars of
                 (vars', out) \<Rightarrow> Next vars' client1 (Command_nop # out))
            else if command = CMD_EXIT then Exit [Command_exit]
            else if command = CMD_SET_VARIABLE then
              (case read_into [of_nat VAR_UNUSED, 0] 2 client1 of
                 (name_val, ignored, client2) \<Rightarrow>
                   (case server_interrupt (vars[unat (name_val ! 0) := name_val ! 1]) of
                      (vars', out) \<Rightarrow>
                        Next vars' client2
                          (Command_set (name_val ! 0) (name_val ! 1) # out)))
            else
              (case server_interrupt vars of
                 (vars', out) \<Rightarrow> Next vars' client1 (Unknown_command command # out)))"

text \<open>How the call ends: the peer closed the connection, or the process exited.\<close>

datatype ending = Closed | Exited

function process_client_commands ::
  "u8 list \<Rightarrow> u8 list list \<Rightarrow> ending \<times> u8 list \<times> event list" where
  "process_client_commands vars client =
     (case loop_body vars client of
        Return \<Rightarrow> (Closed, vars, [])
      | Exit out \<Rightarrow> (Exited, vars, out)
      | Next vars' client' out \<Rightarrow>
          (case process_client_commands vars' client' of
             (e, vars'', out') \<Rightarrow> (e, vars'', out @ out')))"
  by pat_completeness auto

text \<open>
  Each pass that goes on has taken at least the command byte from the stream, so the
  loop ends with the stream.
\<close>

termination
proof (relation "measure (\<lambda>(vars, client). length (concat client))")
  show "wf (measure (\<lambda>(vars, client). length (concat client)))"
    by simp
next
  fix vars client vars' client' out
  assume next_pass: "loop_body vars client = Next vars' client' out"
  have cat: "bytes @ concat rest = concat stream"
    if "read_bytes n stream = (bytes, rest)" for n stream bytes rest
    using that by (induction stream) (auto split: if_splits)
  obtain b c1 where r1: "read_bytes 1 client = (b, c1)"
    by (cases "read_bytes 1 client")
  have b: "b \<noteq> []"
    using next_pass r1 by (auto simp: loop_body_def read_into_def)
  have first: "length (concat c1) < length (concat client)"
    using cat [OF r1] b by (metis length_append length_greater_0_conv less_add_same_cancel2)
  have "length (concat client') \<le> length (concat c1)"
  proof (cases "b ! 0 = CMD_SET_VARIABLE")
    case True
    obtain a c2 where r2: "read_bytes 2 c1 = (a, c2)"
      by (cases "read_bytes 2 c1")
    have "client' = c2"
      using next_pass r1 r2 b True
      by (auto simp: loop_body_def read_into_def enum_defs nth_append
               split: prod.splits if_splits)
    with cat [OF r2] show ?thesis
      by (metis length_append le_add2)
  next
    case False
    then have "client' = c1"
      using next_pass r1 b
      by (auto simp: loop_body_def read_into_def enum_defs nth_append Let_def
               split: prod.splits if_splits)
    then show ?thesis by simp
  qed
  with first show "((vars', client'), (vars, client)) \<in> measure (\<lambda>(vars, client). length (concat client))"
    by simp
qed

declare process_client_commands.simps [simp del]

subsection \<open>\<open>server\<close>\<close>

text \<open>
  The connections are served one after the other on the same global table, each until
  its peer closes it; the first exit ends the process. The result \<open>Closed\<close> stands for
  the server waiting in \<open>accept\<close> after the last connection. Setting up the socket and
  the failures of \<open>socket\<close>, \<open>bind\<close>, \<open>listen\<close> and \<open>accept\<close> are outside the model.
\<close>

fun server :: "u8 list \<Rightarrow> u8 list list list \<Rightarrow> ending \<times> u8 list \<times> event list" where
  "server vars [] = (Closed, vars, [])"
| "server vars (client # clients) =
     (case process_client_commands vars client of
        (Exited, vars', out) \<Rightarrow> (Exited, vars', out)
      | (Closed, vars', out) \<Rightarrow>
          (case server vars' clients of
             (e, vars'', out') \<Rightarrow> (e, vars'', out @ out')))"

subsection \<open>Tables the server can hold\<close>

text \<open>
  Every call of \<open>process_client_commands\<close> is a sequence of passes through its loop, on
  the table the calls before it left. So the tables that can stand between two commands
  are the initial one and every table a pass leaves behind, whatever the stream it reads
  from.
\<close>

inductive reachable :: "u8 list \<Rightarrow> bool" where
  initial: "reachable vars_init"
| pass: "reachable vars \<Longrightarrow> loop_body vars client = Next vars' client' out \<Longrightarrow> reachable vars'"

subsection \<open>The shape of the output\<close>

text \<open>
  An automaton that reads the events of a call and accepts them when every command that
  was applied is followed at once by the events of one \<open>server_interrupt\<close> call (the
  interrupt line, then the trip line if any, then the table), and \<open>Command_exit\<close> is
  followed by nothing.
\<close>

datatype phase = Await_command | After_command | In_interrupt | After_trip | Finished

fun phase_step :: "phase \<Rightarrow> event \<Rightarrow> phase option" where
  "phase_step Await_command Command_nop = Some After_command"
| "phase_step Await_command (Command_set name val) = Some After_command"
| "phase_step Await_command (Unknown_command command) = Some After_command"
| "phase_step Await_command Command_exit = Some Finished"
| "phase_step After_command Server_interrupt = Some In_interrupt"
| "phase_step In_interrupt Breaker_tripped = Some After_trip"
| "phase_step In_interrupt (Variables rows) = Some Await_command"
| "phase_step After_trip (Variables rows) = Some Await_command"
| "phase_step p ev = None"

fun run_phases :: "phase \<Rightarrow> event list \<Rightarrow> phase option" where
  "run_phases p [] = Some p"
| "run_phases p (ev # evs) =
     (case phase_step p ev of None \<Rightarrow> None | Some p' \<Rightarrow> run_phases p' evs)"

text \<open>The events that report an applied command: every command line but the one of exit.\<close>

fun applied_command :: "event \<Rightarrow> bool" where
  "applied_command Command_nop = True"
| "applied_command (Command_set name val) = True"
| "applied_command (Unknown_command command) = True"
| "applied_command other = False"

subsection \<open>The names of the specification\<close>

text \<open>
  The display name as the specification describes it: identifiers 0 to 5 carry the
  documented names; any other identifier gets a synthesized name, for which the source
  writes \<open>var[i]\<close> with \<open>i\<close> in decimal.
\<close>

definition spec_display_name :: "nat \<Rightarrow> string" where
  "spec_display_name i =
     (if i \<le> 5
      then [''unused'', ''voltage'', ''amperage'', ''min_voltage'', ''max_voltage'',
            ''circuit_breaker''] ! i
      else ''var['' @ decimal i @ '']'')"

subsection \<open>Complete commands\<close>

text \<open>
  The bytes of \<open>set name val\<close> as \<open>client\<close> writes them: the command byte and the two
  argument bytes, in one \<open>write\<close>.
\<close>

fun set_bytes :: "u8 \<times> u8 \<Rightarrow> u8 list" where
  "set_bytes (name, val) = [CMD_SET_VARIABLE, name, val]"

text \<open>The value most recently given to an identifier by a list of set commands.\<close>

definition most_recent :: "(u8 \<times> u8) list \<Rightarrow> u8 \<Rightarrow> u8 option" where
  "most_recent commands name = map_of (rev commands) name"

text \<open>
  A stream on which no argument read is cut short before the end: following the reads of
  the server, every read of the two argument bytes of \<open>CMD_SET_VARIABLE\<close> returns both,
  or else nothing is left of the stream after it.
\<close>

function complete_reads :: "u8 list list \<Rightarrow> bool" where
  "complete_reads client =
     (case read_bytes 1 client of
        ([], client1) \<Rightarrow> True
      | (command # none, client1) \<Rightarrow>
          if command = CMD_EXIT then True
          else if command = CMD_SET_VARIABLE then
            (case read_bytes 2 client1 of
               (args, client2) \<Rightarrow>
                 (length args = 2 \<or> concat client2 = []) \<and> complete_reads client2)
          else complete_reads client1)"
  by pat_completeness auto

termination
proof (relation "measure (\<lambda>client. length (concat client))")
  show "wf (measure (\<lambda>client. length (concat client)))"
    by simp
next
  fix client :: "u8 list list" and first client1 command none pair args client2
  assume r1: "(first, client1) = read_bytes 1 client" and first: "first = command # none"
    and r2: "(args, client2) = read_bytes 2 client1"
  have "bytes @ concat rest = concat stream"
    if "read_bytes n stream = (bytes, rest)" for n stream bytes rest
    using that by (induction stream) (auto split: if_splits)
  then have cat: "length bytes + length (concat rest) = length (concat stream)"
    if "read_bytes n stream = (bytes, rest)" for n stream bytes rest
    using that by (metis length_append)
  from cat [OF r1 [symmetric]] cat [OF r2 [symmetric]] first
  have "length (concat client2) < length (concat client)"
    by simp
  then show "(client2, client) \<in> measure (\<lambda>client. length (concat client))"
    by simp
next
  fix client :: "u8 list list" and first client1 command none
  assume r1: "(first, client1) = read_bytes 1 client" and first: "first = command # none"
  have "bytes @ concat rest = concat stream"
    if "read_bytes n stream = (bytes, rest)" for n stream bytes rest
    using that by (induction stream) (auto split: if_splits)
  then have cat: "length bytes + length (concat rest) = length (concat stream)"
    if "read_bytes n stream = (bytes, rest)" for n stream bytes rest
    using that by (metis length_append)
  from cat [OF r1 [symmetric]] first
  have "length (concat client1) < length (concat client)"
    by simp
  then show "(client1, client) \<in> measure (\<lambda>client. length (concat client))"
    by simp
qed

declare complete_reads.simps [simp del]

text \<open>
  The table a list of complete set commands leaves: each store is followed by its
  interrupt.
\<close>

fun run_sets :: "u8 list \<Rightarrow> (u8 \<times> u8) list \<Rightarrow> u8 list" where
  "run_sets vars [] = vars"
| "run_sets vars ((name, val) # commands) =
     run_sets (fst (server_interrupt (vars[unat name := val]))) commands"

text \<open>The output of that list of commands: each command line and the output of its interrupt.\<close>

fun run_out :: "u8 list \<Rightarrow> (u8 \<times> u8) list \<Rightarrow> event list" where
  "run_out vars [] = []"
| "run_out vars ((name, val) # commands) =
     Command_set name val # snd (server_interrupt (vars[unat name := val])) @
     run_out (fst (server_interrupt (vars[unat name := val]))) commands"

text \<open>The set commands that an output reports, in order.\<close>

fun logged_sets :: "event list \<Rightarrow> (u8 \<times> u8) list" where
  "logged_sets [] = []"
| "logged_sets (Command_set name val # out) = (name, val) # logged_sets out"
| "logged_sets (ev # out) = logged_sets out"

text \<open>What an output holds after its last trip line, if it has one.\<close>

fun since_trip :: "event list \<Rightarrow> event list option" where
  "since_trip [] = None"
| "since_trip (ev # out) =
     (case since_trip out of
        Some post \<Rightarrow> Some post
      | None \<Rightarrow> if ev = Breaker_tripped then Some out else None)"

section \<open>Basic facts\<close>

lemma vars_init_length: "length vars_init = 256"
  by (simp add: vars_init_def)

lemma vars_init_nth:
  "vars_init ! 0 = 0" "vars_init ! 1 = 240" "vars_init ! Suc 0 = 240" "vars_init ! 2 = 0"
  "vars_init ! 3 = 235" "vars_init ! 4 = 245" "vars_init ! 5 = 1"
  by (simp_all add: vars_init_def nth_append)

lemma vars_init_ok: "vars_ok vars_init"
  by (simp add: vars_ok_def vars_init_length)

lemma trip_length [simp]:
  "length (fst (trip_breaker_based_on_voltage vars)) = length vars"
  by (simp add: trip_breaker_based_on_voltage_def Let_def)

lemma server_interrupt_fst:
  "fst (server_interrupt vars) = fst (trip_breaker_based_on_voltage vars)"
  by (simp add: server_interrupt_def split: prod.splits)

lemma server_interrupt_snd:
  "snd (server_interrupt vars) =
     Server_interrupt # snd (trip_breaker_based_on_voltage vars) @
       [Variables (show_variables (fst (trip_breaker_based_on_voltage vars)))]"
  by (simp add: server_interrupt_def split: prod.splits)

lemma server_interrupt_length [simp]:
  "length (fst (server_interrupt vars)) = length vars"
  by (simp add: server_interrupt_fst)

lemma trip_eval:
  "trip_breaker_based_on_voltage vars =
     (if vars ! 5 \<noteq> 0 \<and> (vars ! 1 < vars ! 3 \<or> vars ! 4 < vars ! 1)
      then (vars[5 := 0], [Breaker_tripped]) else (vars, []))"
  by (simp add: trip_breaker_based_on_voltage_def enum_defs)

lemma server_interrupt_eval:
  "server_interrupt vars =
     (if vars ! 5 \<noteq> 0 \<and> (vars ! 1 < vars ! 3 \<or> vars ! 4 < vars ! 1)
      then (vars[5 := 0],
            [Server_interrupt, Breaker_tripped, Variables (show_variables (vars[5 := 0]))])
      else (vars, [Server_interrupt, Variables (show_variables vars)]))"
  by (simp add: server_interrupt_def trip_eval)

lemma read_bytes_concat:
  "read_bytes n client = (bytes, client') \<Longrightarrow> bytes @ concat client' = concat client"
  by (induction client) (auto split: if_splits)

lemma read_bytes_empty:
  "concat client = [] \<Longrightarrow> read_bytes n client = ([], [])"
  by (induction client) auto

lemma read_bytes_length:
  "read_bytes n client = (bytes, client') \<Longrightarrow> length bytes \<le> n"
  by (induction client) (auto split: if_splits)

lemma read_bytes_progress:
  "0 < n \<Longrightarrow> concat client \<noteq> [] \<Longrightarrow> fst (read_bytes n client) \<noteq> []"
  by (induction client) auto

lemma read_bytes_one:
  assumes "concat client = b # bs"
  shows "\<exists>client1. read_bytes 1 client = ([b], client1) \<and> concat client1 = bs"
proof -
  obtain x c1 where r: "read_bytes 1 client = (x, c1)"
    by (cases "read_bytes 1 client")
  have "x \<noteq> []"
    using read_bytes_progress [of 1 client] assms r by simp
  moreover have "length x \<le> 1"
    using read_bytes_length [OF r] .
  ultimately obtain y where x: "x = [y]"
    by (cases x) auto
  with read_bytes_concat [OF r] assms have "y = b" "concat c1 = bs"
    by auto
  with r x show ?thesis by simp
qed

text \<open>The first read of a pass: nothing at the end of the stream, else one byte.\<close>

lemma loop_body_end:
  "concat client = [] \<Longrightarrow> loop_body vars client = Return"
  by (simp add: loop_body_def read_into_def read_bytes_empty)

lemma process_end:
  "concat client = [] \<Longrightarrow> process_client_commands vars client = (Closed, vars, [])"
  by (simp add: process_client_commands.simps loop_body_end)

lemma loop_body_command:
  assumes "read_bytes 1 client = ([command], client1)"
  shows "loop_body vars client =
     (if command = CMD_NOP then
        Next (fst (server_interrupt vars)) client1 (Command_nop # snd (server_interrupt vars))
      else if command = CMD_EXIT then Exit [Command_exit]
      else if command = CMD_SET_VARIABLE then
        (case read_into [0, 0] 2 client1 of
           (name_val, ignored, client2) \<Rightarrow>
             Next (fst (server_interrupt (vars[unat (name_val ! 0) := name_val ! 1]))) client2
               (Command_set (name_val ! 0) (name_val ! 1) #
                snd (server_interrupt (vars[unat (name_val ! 0) := name_val ! 1]))))
      else
        Next (fst (server_interrupt vars)) client1
          (Unknown_command command # snd (server_interrupt vars)))"
  using assms
  by (simp add: loop_body_def read_into_def Let_def VAR_UNUSED_def split: prod.splits)

text \<open>The argument read of \<open>CMD_SET_VARIABLE\<close>, by what is left of the stream.\<close>

lemma read_args_none:
  "concat client = [] \<Longrightarrow> read_into [0, 0] 2 client = ([0, 0], 0, [])"
  by (simp add: read_into_def read_bytes_empty)

lemma read_args_cases:
  assumes "read_into [0, 0] 2 client = (name_val, got, client')"
  shows "(concat client = [] \<and> name_val = [0, 0] \<and> client' = []) \<or>
         (\<exists>a. name_val = [a, 0] \<and> a # concat client' = concat client) \<or>
         (\<exists>a b. name_val = [a, b] \<and> a # b # concat client' = concat client)"
proof -
  obtain x c where r: "read_bytes 2 client = (x, c)"
    by (cases "read_bytes 2 client")
  have len: "length x \<le> 2"
    using read_bytes_length [OF r] .
  have cat: "x @ concat c = concat client"
    using read_bytes_concat [OF r] .
  have res: "name_val = x @ drop (length x) [0, 0]" "client' = c"
    using assms r by (auto simp: read_into_def)
  show ?thesis
  proof (cases x)
    case Nil
    then have "concat client = []"
      using read_bytes_progress [of 2 client] r by auto
    then show ?thesis
      using assms by (simp add: read_args_none)
  next
    case (Cons a xs)
    show ?thesis
    proof (cases xs)
      case Nil
      with Cons res cat show ?thesis by auto
    next
      case (Cons b ys)
      with len \<open>x = a # xs\<close> have "x = [a, b]" by simp
      with res cat show ?thesis by auto
    qed
  qed
qed

text \<open>The five ways a pass through the loop can go.\<close>

lemma loop_body_cases [case_names Return Nop Exit Set Unknown]:
  obtains
    "concat client = []" and "loop_body vars client = Return"
  | client1 where "concat client = CMD_NOP # concat client1"
      and "loop_body vars client =
             Next (fst (server_interrupt vars)) client1
               (Command_nop # snd (server_interrupt vars))"
  | rest where "concat client = CMD_EXIT # rest"
      and "loop_body vars client = Exit [Command_exit]"
  | name val got client1 client2 where "concat client = CMD_SET_VARIABLE # concat client1"
      and "read_into [0, 0] 2 client1 = ([name, val], got, client2)"
      and "loop_body vars client =
             Next (fst (server_interrupt (vars[unat name := val]))) client2
               (Command_set name val # snd (server_interrupt (vars[unat name := val])))"
  | command client1 where "concat client = command # concat client1"
      and "command \<noteq> CMD_NOP" and "command \<noteq> CMD_EXIT" and "command \<noteq> CMD_SET_VARIABLE"
      and "loop_body vars client =
             Next (fst (server_interrupt vars)) client1
               (Unknown_command command # snd (server_interrupt vars))"
proof (cases "concat client")
  case Nil
  then show ?thesis
    using that(1) loop_body_end by blast
next
  case (Cons command bytes)
  then obtain client1 where r1: "read_bytes 1 client = ([command], client1)"
    and rest: "concat client1 = bytes"
    using read_bytes_one by blast
  note body = loop_body_command [OF r1, of vars]
  consider "command = CMD_NOP" | "command = CMD_EXIT" | "command = CMD_SET_VARIABLE"
    | "command \<noteq> CMD_NOP" "command \<noteq> CMD_EXIT" "command \<noteq> CMD_SET_VARIABLE"
    by blast
  then show ?thesis
  proof cases
    case 1
    with body Cons rest show ?thesis
      by (intro that(2) [of client1]) simp_all
  next
    case 2
    with body Cons show ?thesis
      by (intro that(3) [of bytes]) (simp_all add: enum_defs)
  next
    case 3
    obtain name_val got client2 where r2: "read_into [0, 0] 2 client1 = (name_val, got, client2)"
      by (cases "read_into [0, 0] 2 client1")
    from read_args_cases [OF r2] obtain name val where nv: "name_val = [name, val]"
      by blast
    with 3 body Cons rest r2 show ?thesis
      by (intro that(4) [of client1 name val got client2]) (simp_all add: enum_defs)
  next
    case 4
    with body Cons rest show ?thesis
      by (intro that(5) [of command client1]) simp_all
  qed
qed

lemma loop_body_ok:
  "loop_body vars client = Next vars' client' out \<Longrightarrow> vars_ok vars \<Longrightarrow> vars_ok vars'"
  by (cases vars client rule: loop_body_cases) (auto simp: vars_ok_def)

section \<open>The safety policy\<close>

text \<open>
  C1. The policy trips the breaker exactly when the breaker is closed and the voltage is
  out of range. In that case the only change is that entry \<open>circuit_breaker\<close> of the
  table becomes 0 (a real change, since it was non-zero) and the trip is reported; in every
  other state the table is returned as it was and nothing is reported.
\<close>

theorem trip_breaker_iff:
  assumes "vars_ok vars"
  shows "(vars ! VAR_CIRCUIT_BREAKER \<noteq> 0 \<and>
            (vars ! VAR_VOLTAGE < vars ! VAR_MIN_VOLTAGE \<or>
             vars ! VAR_VOLTAGE > vars ! VAR_MAX_VOLTAGE) \<longrightarrow>
          trip_breaker_based_on_voltage vars =
            (vars[VAR_CIRCUIT_BREAKER := 0], [Breaker_tripped]) \<and>
          vars[VAR_CIRCUIT_BREAKER := 0] \<noteq> vars \<and>
          vars[VAR_CIRCUIT_BREAKER := 0] ! VAR_CIRCUIT_BREAKER = 0) \<and>
         (\<not> (vars ! VAR_CIRCUIT_BREAKER \<noteq> 0 \<and>
              (vars ! VAR_VOLTAGE < vars ! VAR_MIN_VOLTAGE \<or>
               vars ! VAR_VOLTAGE > vars ! VAR_MAX_VOLTAGE)) \<longrightarrow>
          trip_breaker_based_on_voltage vars = (vars, []))"
proof -
  have in_range: "VAR_CIRCUIT_BREAKER < length vars"
    using assms by (simp add: vars_ok_def VAR_CIRCUIT_BREAKER_def)
  have changed: "vars[VAR_CIRCUIT_BREAKER := 0] \<noteq> vars"
    if "vars ! VAR_CIRCUIT_BREAKER \<noteq> 0"
  proof
    assume "vars[VAR_CIRCUIT_BREAKER := 0] = vars"
    then have "vars[VAR_CIRCUIT_BREAKER := 0] ! VAR_CIRCUIT_BREAKER = vars ! VAR_CIRCUIT_BREAKER"
      by simp
    with in_range that show False by simp
  qed
  show ?thesis
    using in_range changed by (simp add: trip_breaker_based_on_voltage_def)
qed

text \<open>
  With the voltage at 200 the initial table trips; the initial table itself does not.
\<close>

theorem trip_breaker_iff_witness:
  "vars_ok (vars_init[VAR_VOLTAGE := 200]) \<and>
   trip_breaker_based_on_voltage (vars_init[VAR_VOLTAGE := 200]) =
     (vars_init[VAR_VOLTAGE := 200, VAR_CIRCUIT_BREAKER := 0], [Breaker_tripped]) \<and>
   vars_ok vars_init \<and> trip_breaker_based_on_voltage vars_init = (vars_init, [])"
proof -
  have ok: "vars_ok (vars_init[VAR_VOLTAGE := 200])" "vars_ok vars_init"
    by (simp_all add: vars_ok_def vars_init_length)
  show ?thesis
    using ok trip_breaker_iff [OF ok(1)] trip_breaker_iff [OF ok(2)]
    by (simp add: vars_init_nth vars_init_length enum_defs)
qed

section \<open>Short reads\<close>

text \<open>
  C2, as the code has it. When the stream ends before both argument bytes of
  \<open>CMD_SET_VARIABLE\<close> have arrived, the command is applied all the same, with the
  missing bytes left at the zeros the buffer was filled with: with no argument byte it
  stores 0 in entry 0 (\<open>unused\<close>), with one argument byte \<open>a\<close> it stores 0 in entry
  \<open>a\<close>. The interrupt runs on the result and the call then returns, the next read finding
  the stream at its end. This holds however the bytes are cut into segments.
\<close>

theorem short_read_zero_filled:
  "(concat client = [CMD_SET_VARIABLE] \<longrightarrow>
      process_client_commands vars client =
        (Closed, fst (server_interrupt (vars[VAR_UNUSED := 0])),
         Command_set 0 0 # snd (server_interrupt (vars[VAR_UNUSED := 0])))) \<and>
   (concat client = [CMD_SET_VARIABLE, a] \<longrightarrow>
      process_client_commands vars client =
        (Closed, fst (server_interrupt (vars[unat a := 0])),
         Command_set a 0 # snd (server_interrupt (vars[unat a := 0]))))"
proof (intro conjI impI)
  assume bytes: "concat client = [CMD_SET_VARIABLE]"
  then obtain client1 where r1: "read_bytes 1 client = ([CMD_SET_VARIABLE], client1)"
    and rest: "concat client1 = []"
    using read_bytes_one by blast
  have "loop_body vars client =
          Next (fst (server_interrupt (vars[VAR_UNUSED := 0]))) []
            (Command_set 0 0 # snd (server_interrupt (vars[VAR_UNUSED := 0])))"
    by (simp add: loop_body_command [OF r1] read_args_none [OF rest] enum_defs)
  then show "process_client_commands vars client =
        (Closed, fst (server_interrupt (vars[VAR_UNUSED := 0])),
         Command_set 0 0 # snd (server_interrupt (vars[VAR_UNUSED := 0])))"
    by (simp add: process_client_commands.simps [of vars client] process_end)
next
  assume bytes: "concat client = [CMD_SET_VARIABLE, a]"
  then obtain client1 where r1: "read_bytes 1 client = ([CMD_SET_VARIABLE], client1)"
    and rest: "concat client1 = [a]"
    using read_bytes_one by blast
  obtain name_val got client2 where r2: "read_into [0, 0] 2 client1 = (name_val, got, client2)"
    by (cases "read_into [0, 0] 2 client1")
  from read_args_cases [OF r2] rest have nv: "name_val = [a, 0]" and fin: "concat client2 = []"
    by auto
  have "loop_body vars client =
          Next (fst (server_interrupt (vars[unat a := 0]))) client2
            (Command_set a 0 # snd (server_interrupt (vars[unat a := 0])))"
    by (simp add: loop_body_command [OF r1] r2 nv enum_defs)
  then show "process_client_commands vars client =
        (Closed, fst (server_interrupt (vars[unat a := 0])),
         Command_set a 0 # snd (server_interrupt (vars[unat a := 0])))"
    by (simp add: process_client_commands.simps [of vars client] process_end [OF fin])
qed

text \<open>
  The lone command byte clears entry 0; the command byte followed by the byte 1 sets
  the voltage to 0, and the interrupt trips the breaker.
\<close>

theorem short_read_zero_filled_witness:
  "concat [[CMD_SET_VARIABLE]] = [CMD_SET_VARIABLE] \<and>
   process_client_commands (vars_init[0 := 9]) [[CMD_SET_VARIABLE]] =
     (Closed, vars_init[0 := 0],
      [Command_set 0 0, Server_interrupt, Variables (show_variables (vars_init[0 := 0]))]) \<and>
   concat [[CMD_SET_VARIABLE], [1]] = [CMD_SET_VARIABLE, 1] \<and>
   process_client_commands vars_init [[CMD_SET_VARIABLE], [1]] =
     (Closed, vars_init[1 := 0, 5 := 0],
      [Command_set 1 0, Server_interrupt, Breaker_tripped,
       Variables (show_variables (vars_init[1 := 0, 5 := 0]))])"
  using short_read_zero_filled [of "[[CMD_SET_VARIABLE]]" "vars_init[0 := 9]" 1]
    short_read_zero_filled [of "[[CMD_SET_VARIABLE], [1]]" vars_init 1]
  by (simp add: server_interrupt_eval vars_init_nth vars_init_length enum_defs)

text \<open>
  C2 as the specification states it fails: the stream that ends after the command byte
  and the argument byte 5 opens the circuit breaker of the initial table.
\<close>

theorem short_read_applied_counterexample:
  "process_client_commands vars_init [[CMD_SET_VARIABLE, 5]] =
     (Closed, vars_init[VAR_CIRCUIT_BREAKER := 0],
      [Command_set 5 0, Server_interrupt,
       Variables (show_variables (vars_init[VAR_CIRCUIT_BREAKER := 0]))]) \<and>
   vars_init ! VAR_CIRCUIT_BREAKER = 1 \<and>
   vars_init[VAR_CIRCUIT_BREAKER := 0] ! VAR_CIRCUIT_BREAKER = 0"
  by (simp add: process_client_commands.simps loop_body_def read_into_def
        server_interrupt_eval vars_init_nth vars_init_length enum_defs)

section \<open>Induction over a call of \<open>process_client_commands\<close>\<close>

text \<open>
  A property of a whole call follows from its three cases: the stream is at its end, the
  pass exits, or the pass goes on and the property holds for the rest of the call.
\<close>

lemma process_induct [consumes 1, case_names Return Exit Next]:
  assumes "process_client_commands vars client = (e, vars', out)"
    and "\<And>vars client. loop_body vars client = Return \<Longrightarrow> P vars client Closed vars []"
    and "\<And>vars client out. loop_body vars client = Exit out \<Longrightarrow> P vars client Exited vars out"
    and "\<And>vars client vars1 client1 out1 e vars' out2.
           loop_body vars client = Next vars1 client1 out1 \<Longrightarrow>
           process_client_commands vars1 client1 = (e, vars', out2) \<Longrightarrow>
           P vars1 client1 e vars' out2 \<Longrightarrow> P vars client e vars' (out1 @ out2)"
  shows "P vars client e vars' out"
  using assms(1)
proof (induction vars client arbitrary: e vars' out rule: process_client_commands.induct)
  case (1 vars client)
  show ?case
  proof (cases "loop_body vars client")
    case Return
    with "1.prems" assms(2) [OF Return] show ?thesis
      by (simp add: process_client_commands.simps [of vars client])
  next
    case (Exit x)
    with "1.prems" assms(3) [OF Exit] show ?thesis
      by (simp add: process_client_commands.simps [of vars client])
  next
    case (Next vars1 client1 out1)
    obtain e2 vars2 out2 where rec: "process_client_commands vars1 client1 = (e2, vars2, out2)"
      by (cases "process_client_commands vars1 client1")
    with Next "1.prems" have res: "e = e2" "vars' = vars2" "out = out1 @ out2"
      by (simp_all add: process_client_commands.simps [of vars client])
    from assms(4) [OF Next rec "1.IH" [OF Next rec]] res show ?thesis
      by simp
  qed
qed

lemma process_ok:
  "process_client_commands vars client = (e, vars', out) \<Longrightarrow> vars_ok vars \<Longrightarrow> vars_ok vars'"
  by (induction rule: process_induct) (auto dest: loop_body_ok)

lemma reachable_ok: "reachable vars \<Longrightarrow> vars_ok vars"
  by (induction rule: reachable.induct) (auto simp: vars_init_ok intro: loop_body_ok)

lemma process_reachable:
  "process_client_commands vars client = (e, vars', out) \<Longrightarrow> reachable vars \<Longrightarrow> reachable vars'"
  by (induction rule: process_induct) (auto intro: reachable.pass)

text \<open>Whatever the connections, the server holds reachable tables only.\<close>

lemma server_reachable:
  "reachable vars \<Longrightarrow> server vars clients = (e, vars', out) \<Longrightarrow> reachable vars'"
proof (induction clients arbitrary: vars e vars' out)
  case Nil
  then show ?case by simp
next
  case (Cons client clients)
  obtain e1 vars1 out1 where call: "process_client_commands vars client = (e1, vars1, out1)"
    by (cases "process_client_commands vars client")
  from process_reachable [OF call Cons.prems(1)] have reach: "reachable vars1" .
  show ?case
  proof (cases e1)
    case Closed
    obtain e2 vars2 out2 where rest: "server vars1 clients = (e2, vars2, out2)"
      by (cases "server vars1 clients")
    with Closed call Cons.prems(2) have "vars' = vars2"
      by simp
    with Cons.IH [OF reach rest] show ?thesis
      by simp
  next
    case Exited
    with call Cons.prems(2) reach show ?thesis
      by simp
  qed
qed

text \<open>What a pass hands on is the result of one interrupt, after one command line.\<close>

lemma loop_body_interrupt:
  assumes "loop_body vars client = Next vars' client' out"
  shows "\<exists>ev vars1. applied_command ev \<and> vars' = fst (server_interrupt vars1) \<and>
           out = ev # snd (server_interrupt vars1)"
proof (cases vars client rule: loop_body_cases)
  case (Nop client1)
  with assms show ?thesis
    by (intro exI [of _ Command_nop] exI [of _ vars]) simp
next
  case (Set name val got client1 client2)
  with assms show ?thesis
    by (intro exI [of _ "Command_set name val"] exI [of _ "vars[unat name := val]"]) simp
next
  case (Unknown command client1)
  with assms show ?thesis
    by (intro exI [of _ "Unknown_command command"] exI [of _ vars]) simp
qed (use assms in simp_all)

lemma loop_body_exit:
  "loop_body vars client = Exit out \<Longrightarrow> out = [Command_exit]"
  by (cases vars client rule: loop_body_cases) auto

section \<open>The breaker stays open\<close>

text \<open>Once the breaker is open the interrupt changes nothing.\<close>

lemma server_interrupt_open:
  "vars ! VAR_CIRCUIT_BREAKER = 0 \<Longrightarrow>
   server_interrupt vars = (vars, [Server_interrupt, Variables (show_variables vars)])"
  by (simp add: server_interrupt_eval enum_defs)

lemma unat_is_breaker:
  "unat (name :: u8) = VAR_CIRCUIT_BREAKER \<Longrightarrow> name = of_nat VAR_CIRCUIT_BREAKER"
  by (metis of_nat_unat ucast_id)

lemma loop_body_breaker:
  assumes "loop_body vars client = Next vars' client' out"
    and "vars_ok vars" and "vars ! VAR_CIRCUIT_BREAKER = 0"
    and "\<forall>val. Command_set (of_nat VAR_CIRCUIT_BREAKER) val \<in> set out \<longrightarrow> val = 0"
  shows "vars' ! VAR_CIRCUIT_BREAKER = 0"
proof (cases vars client rule: loop_body_cases)
  case (Set name val got client1 client2)
  have "vars[unat name := val] ! VAR_CIRCUIT_BREAKER = 0"
  proof (cases "unat name = VAR_CIRCUIT_BREAKER")
    case True
    then have "name = of_nat VAR_CIRCUIT_BREAKER"
      by (rule unat_is_breaker)
    with Set assms(1,4) have "val = 0" by auto
    with True assms(2) show ?thesis
      by (simp add: vars_ok_def VAR_CIRCUIT_BREAKER_def)
  next
    case False
    with assms(3) show ?thesis by simp
  qed
  with Set assms(1) show ?thesis
    by (auto simp: server_interrupt_open)
qed (use assms in \<open>auto simp: server_interrupt_open\<close>)

text \<open>
  C4. From a table whose breaker is open (\<open>circuit_breaker\<close> is 0), a call that
  processes no command \<open>set circuit_breaker\<close> to a non-zero value ends with the breaker
  still open, whatever else it processes and however its stream is cut. The commands
  processed are read off the server's own command lines: every \<open>CMD_SET_VARIABLE\<close> that
  is applied prints its identifier and its value. Read the other way round: if the
  breaker is closed at the end, the call has processed a command that set it to a non-zero
  value.
\<close>

theorem breaker_stays_tripped:
  assumes "process_client_commands vars client = (e, vars', out)"
    and "vars_ok vars"
    and "vars ! VAR_CIRCUIT_BREAKER = 0"
    and "\<forall>val. Command_set (of_nat VAR_CIRCUIT_BREAKER) val \<in> set out \<longrightarrow> val = 0"
  shows "vars' ! VAR_CIRCUIT_BREAKER = 0"
  using assms
proof (induction rule: process_induct)
  case (Next vars client vars1 client1 out1 e vars' out2)
  have "vars1 ! VAR_CIRCUIT_BREAKER = 0"
    using loop_body_breaker [OF Next.hyps(1) Next.prems(1,2)] Next.prems(3) by simp
  moreover have "vars_ok vars1"
    using loop_body_ok [OF Next.hyps(1) Next.prems(1)] .
  ultimately show ?case
    using Next.IH Next.prems(3) by simp
qed simp_all

text \<open>
  From the tripped table: a voltage in range, an explicit \<open>set circuit_breaker 0\<close> and
  a \<open>nop\<close> leave the breaker open.
\<close>

theorem breaker_stays_tripped_witness:
  "vars_ok (vars_init[5 := 0]) \<and> vars_init[5 := 0] ! VAR_CIRCUIT_BREAKER = 0 \<and>
   process_client_commands (vars_init[5 := 0]) [[2, 1, 240, 2, 5, 0], [0]] =
     (Closed, vars_init[5 := 0, 1 := 240, 5 := 0],
      [Command_set 1 240, Server_interrupt,
         Variables (show_variables (vars_init[5 := 0, 1 := 240])),
       Command_set 5 0, Server_interrupt,
         Variables (show_variables (vars_init[5 := 0, 1 := 240, 5 := 0])),
       Command_nop, Server_interrupt,
         Variables (show_variables (vars_init[5 := 0, 1 := 240, 5 := 0]))]) \<and>
   vars_init[5 := 0, 1 := 240, 5 := 0] ! VAR_CIRCUIT_BREAKER = 0"
proof -
  have run: "process_client_commands (vars_init[5 := 0]) [[2, 1, 240, 2, 5, 0], [0]] =
     (Closed, vars_init[5 := 0, 1 := 240, 5 := 0],
      [Command_set 1 240, Server_interrupt,
         Variables (show_variables (vars_init[5 := 0, 1 := 240])),
       Command_set 5 0, Server_interrupt,
         Variables (show_variables (vars_init[5 := 0, 1 := 240, 5 := 0])),
       Command_nop, Server_interrupt,
         Variables (show_variables (vars_init[5 := 0, 1 := 240, 5 := 0]))])"
    by (simp add: process_client_commands.simps loop_body_def read_into_def
          server_interrupt_eval vars_init_nth vars_init_length enum_defs)
  have ok: "vars_ok (vars_init[5 := 0])"
    by (simp add: vars_ok_def vars_init_length)
  have tripped: "vars_init[5 := 0] ! VAR_CIRCUIT_BREAKER = 0"
    by (simp add: vars_init_length enum_defs)
  show ?thesis
    using breaker_stays_tripped [OF run ok tripped] run ok tripped
    by (simp add: enum_defs)
qed

section \<open>One interrupt after each command\<close>

lemma run_phases_append:
  "run_phases p (xs @ ys) =
     (case run_phases p xs of None \<Rightarrow> None | Some q \<Rightarrow> run_phases q ys)"
  by (induction xs arbitrary: p) (auto split: option.splits)

lemma run_phases_interrupt:
  "run_phases After_command (snd (server_interrupt vars)) = Some Await_command"
  by (simp add: server_interrupt_eval)

lemma loop_body_phases:
  "loop_body vars client = Next vars' client' out \<Longrightarrow>
   run_phases Await_command out = Some Await_command"
  by (cases vars client rule: loop_body_cases) (auto simp: run_phases_interrupt)

lemma process_phases:
  "process_client_commands vars client = (e, vars', out) \<Longrightarrow>
   run_phases Await_command out = Some (case e of Closed \<Rightarrow> Await_command | Exited \<Rightarrow> Finished)"
  by (induction rule: process_induct)
     (auto simp: run_phases_append loop_body_phases dest: loop_body_exit)

lemma process_exit:
  assumes "concat client = CMD_EXIT # rest"
  shows "process_client_commands vars client = (Exited, vars, [Command_exit])"
proof (cases vars client rule: loop_body_cases)
  case (Exit rest)
  then show ?thesis
    by (simp add: process_client_commands.simps [of vars client])
qed (use assms in \<open>auto simp: enum_defs\<close>)

lemma process_next:
  "loop_body vars client = Next vars1 client1 out1 \<Longrightarrow>
   process_client_commands vars client =
     (case process_client_commands vars1 client1 of
        (e, vars', out) \<Rightarrow> (e, vars', out1 @ out))"
  by (simp add: process_client_commands.simps [of vars client])

lemma server_interrupt_once:
  "server_interrupt vars =
     (fst (trip_breaker_based_on_voltage vars),
      [Server_interrupt] @ snd (trip_breaker_based_on_voltage vars) @
      [Variables (show_variables (fst (trip_breaker_based_on_voltage vars)))])"
  by (simp add: server_interrupt_def split: prod.splits)

text \<open>A pass that reads a command byte other than exit applies it and runs the interrupt.\<close>

lemma pass_decoded:
  assumes "concat client = command # rest" and "command \<noteq> CMD_EXIT"
  shows "\<exists>ev vars1 client1.
      (command = CMD_NOP \<and> ev = Command_nop \<and> vars1 = vars \<and> concat client1 = rest \<or>
       command = CMD_SET_VARIABLE \<and>
         (\<exists>name val. ev = Command_set name val \<and> vars1 = vars[unat name := val] \<and>
            (rest = [] \<and> name = 0 \<and> val = 0 \<and> concat client1 = [] \<or>
             rest = name # concat client1 \<and> val = 0 \<or>
             rest = name # val # concat client1)) \<or>
       command \<noteq> CMD_NOP \<and> command \<noteq> CMD_SET_VARIABLE \<and>
         ev = Unknown_command command \<and> vars1 = vars \<and> concat client1 = rest) \<and>
      loop_body vars client =
        Next (fst (server_interrupt vars1)) client1 (ev # snd (server_interrupt vars1)) \<and>
      process_client_commands vars client =
        (case process_client_commands (fst (server_interrupt vars1)) client1 of
           (e, vars', out) \<Rightarrow> (e, vars', ev # snd (server_interrupt vars1) @ out))"
proof -
  from assms(1) obtain client1 where r1: "read_bytes 1 client = ([command], client1)"
    and rest: "concat client1 = rest"
    using read_bytes_one by blast
  note body = loop_body_command [OF r1, of vars]
  consider "command = CMD_NOP" | "command = CMD_SET_VARIABLE"
    | "command \<noteq> CMD_NOP" "command \<noteq> CMD_SET_VARIABLE"
    by blast
  then show ?thesis
  proof cases
    case 1
    with body have pass: "loop_body vars client =
        Next (fst (server_interrupt vars)) client1 (Command_nop # snd (server_interrupt vars))"
      by simp
    from 1 rest pass process_next [OF pass] show ?thesis
      by (intro exI [of _ Command_nop] exI [of _ vars] exI [of _ client1]) simp
  next
    case 2
    obtain name_val got client2 where r2: "read_into [0, 0] 2 client1 = (name_val, got, client2)"
      by (cases "read_into [0, 0] 2 client1")
    from read_args_cases [OF r2] rest
    obtain name val where nv: "name_val = [name, val]"
      and how: "rest = [] \<and> name = 0 \<and> val = 0 \<and> concat client2 = [] \<or>
                rest = name # concat client2 \<and> val = 0 \<or>
                rest = name # val # concat client2"
      by auto
    from 2 body r2 nv assms(2) have pass: "loop_body vars client =
        Next (fst (server_interrupt (vars[unat name := val]))) client2
          (Command_set name val # snd (server_interrupt (vars[unat name := val])))"
      by (simp add: enum_defs)
    from 2 how pass process_next [OF pass] show ?thesis
      by (intro exI [of _ "Command_set name val"] exI [of _ "vars[unat name := val]"]
            exI [of _ client2]) auto
  next
    case 3
    with body assms(2) have pass: "loop_body vars client =
        Next (fst (server_interrupt vars)) client1
          (Unknown_command command # snd (server_interrupt vars))"
      by simp
    from 3 rest pass process_next [OF pass] show ?thesis
      by (intro exI [of _ "Unknown_command command"] exI [of _ vars] exI [of _ client1]) simp
  qed
qed

text \<open>
  C5. For every table and every stream: when nothing is left of the stream the call
  returns. When the next byte is \<open>CMD_EXIT\<close> the call ends at once, the table untouched
  and no interrupt run. When the next byte is any other command, whatever its code, the
  pass applies it (nop and unknown codes leave the table, set stores the value it read),
  prints its line, and runs \<open>server_interrupt\<close> exactly once on the resulting table: the
  pass hands on the table that call returned, its output is the command line followed by
  the output of that call, and the call goes on from there with the rest of the stream.
  One call of \<open>server_interrupt\<close> is the policy check followed by the snapshot. So in the
  output of the whole call every line of an applied command is followed at once by the
  output of one interrupt, and the line of exit by nothing: the automaton accepts the
  output, ending in \<open>Finished\<close> exactly when the call exited.
\<close>

theorem interrupt_after_each_command:
  "(concat client = [] \<longrightarrow> process_client_commands vars client = (Closed, vars, [])) \<and>
   (concat client = CMD_EXIT # rest \<longrightarrow>
      process_client_commands vars client = (Exited, vars, [Command_exit])) \<and>
   (concat client = command # rest \<and> command \<noteq> CMD_EXIT \<longrightarrow>
      (\<exists>ev vars1 client1.
         (command = CMD_NOP \<and> ev = Command_nop \<and> vars1 = vars \<and> concat client1 = rest \<or>
          command = CMD_SET_VARIABLE \<and>
            (\<exists>name val. ev = Command_set name val \<and> vars1 = vars[unat name := val] \<and>
               (rest = [] \<and> name = 0 \<and> val = 0 \<and> concat client1 = [] \<or>
                rest = name # concat client1 \<and> val = 0 \<or>
                rest = name # val # concat client1)) \<or>
          command \<noteq> CMD_NOP \<and> command \<noteq> CMD_SET_VARIABLE \<and>
            ev = Unknown_command command \<and> vars1 = vars \<and> concat client1 = rest) \<and>
         loop_body vars client =
           Next (fst (server_interrupt vars1)) client1 (ev # snd (server_interrupt vars1)) \<and>
         process_client_commands vars client =
           (case process_client_commands (fst (server_interrupt vars1)) client1 of
              (e, vars', out) \<Rightarrow> (e, vars', ev # snd (server_interrupt vars1) @ out)))) \<and>
   server_interrupt vars =
     (fst (trip_breaker_based_on_voltage vars),
      [Server_interrupt] @ snd (trip_breaker_based_on_voltage vars) @
      [Variables (show_variables (fst (trip_breaker_based_on_voltage vars)))]) \<and>
   run_phases Await_command (snd (snd (process_client_commands vars client))) =
     Some (case fst (process_client_commands vars client) of
             Closed \<Rightarrow> Await_command | Exited \<Rightarrow> Finished)"
proof (intro conjI impI)
  show "process_client_commands vars client = (Closed, vars, [])" if "concat client = []"
    using that by (rule process_end)
  show "process_client_commands vars client = (Exited, vars, [Command_exit])"
    if "concat client = CMD_EXIT # rest"
    using that by (rule process_exit)
  show "\<exists>ev vars1 client1.
         (command = CMD_NOP \<and> ev = Command_nop \<and> vars1 = vars \<and> concat client1 = rest \<or>
          command = CMD_SET_VARIABLE \<and>
            (\<exists>name val. ev = Command_set name val \<and> vars1 = vars[unat name := val] \<and>
               (rest = [] \<and> name = 0 \<and> val = 0 \<and> concat client1 = [] \<or>
                rest = name # concat client1 \<and> val = 0 \<or>
                rest = name # val # concat client1)) \<or>
          command \<noteq> CMD_NOP \<and> command \<noteq> CMD_SET_VARIABLE \<and>
            ev = Unknown_command command \<and> vars1 = vars \<and> concat client1 = rest) \<and>
         loop_body vars client =
           Next (fst (server_interrupt vars1)) client1 (ev # snd (server_interrupt vars1)) \<and>
         process_client_commands vars client =
           (case process_client_commands (fst (server_interrupt vars1)) client1 of
              (e, vars', out) \<Rightarrow> (e, vars', ev # snd (server_interrupt vars1) @ out))"
    if "concat client = command # rest \<and> command \<noteq> CMD_EXIT"
    using that pass_decoded [of client command rest vars] by blast
  show "server_interrupt vars =
     (fst (trip_breaker_based_on_voltage vars),
      [Server_interrupt] @ snd (trip_breaker_based_on_voltage vars) @
      [Variables (show_variables (fst (trip_breaker_based_on_voltage vars)))])"
    by (rule server_interrupt_once)
  show "run_phases Await_command (snd (snd (process_client_commands vars client))) =
     Some (case fst (process_client_commands vars client) of
             Closed \<Rightarrow> Await_command | Exited \<Rightarrow> Finished)"
    using process_phases [of vars client]
    by (cases "process_client_commands vars client") auto
qed

text \<open>
  The empty stream; an exit with bytes after it that are never read; the unknown code
  200 followed by two nops; a nop; a complete set command that trips the breaker; and a
  call with a nop, a set, an unknown command and an exit.
\<close>

theorem interrupt_after_each_command_witness:
  "process_client_commands vars_init [[], []] = (Closed, vars_init, []) \<and>
   process_client_commands vars_init [[CMD_EXIT, 0], [0]] = (Exited, vars_init, [Command_exit]) \<and>
   loop_body vars_init [[200, 0, 0]] =
     Next vars_init [[0, 0]]
       [Unknown_command 200, Server_interrupt, Variables (show_variables vars_init)] \<and>
   process_client_commands vars_init [[200, 0, 0]] =
     (Closed, vars_init,
      [Unknown_command 200, Server_interrupt, Variables (show_variables vars_init),
       Command_nop, Server_interrupt, Variables (show_variables vars_init),
       Command_nop, Server_interrupt, Variables (show_variables vars_init)]) \<and>
   loop_body vars_init [[0], [2, 1, 200]] =
     Next vars_init [[], [2, 1, 200]]
       [Command_nop, Server_interrupt, Variables (show_variables vars_init)] \<and>
   loop_body vars_init [[2, 1, 200], [9]] =
     Next (vars_init[1 := 200, 5 := 0]) [[], [9]]
       [Command_set 1 200, Server_interrupt, Breaker_tripped,
        Variables (show_variables (vars_init[1 := 200, 5 := 0]))] \<and>
   process_client_commands vars_init [[0, 2, 1, 200], [9, 1, 0]] =
     (Exited, vars_init[1 := 200, 5 := 0],
      [Command_nop, Server_interrupt, Variables (show_variables vars_init),
       Command_set 1 200, Server_interrupt, Breaker_tripped,
         Variables (show_variables (vars_init[1 := 200, 5 := 0])),
       Unknown_command 9, Server_interrupt,
         Variables (show_variables (vars_init[1 := 200, 5 := 0])),
       Command_exit]) \<and>
   run_phases Await_command
     (snd (snd (process_client_commands vars_init [[0, 2, 1, 200], [9, 1, 0]]))) = Some Finished"
proof -
  note eval = process_client_commands.simps loop_body_def read_into_def
    server_interrupt_eval vars_init_nth vars_init_length enum_defs
  have run: "process_client_commands vars_init [[0, 2, 1, 200], [9, 1, 0]] =
     (Exited, vars_init[1 := 200, 5 := 0],
      [Command_nop, Server_interrupt, Variables (show_variables vars_init),
       Command_set 1 200, Server_interrupt, Breaker_tripped,
         Variables (show_variables (vars_init[1 := 200, 5 := 0])),
       Unknown_command 9, Server_interrupt,
         Variables (show_variables (vars_init[1 := 200, 5 := 0])),
       Command_exit])"
    by (simp add: eval)
  have unknown: "process_client_commands vars_init [[200, 0, 0]] =
     (Closed, vars_init,
      [Unknown_command 200, Server_interrupt, Variables (show_variables vars_init),
       Command_nop, Server_interrupt, Variables (show_variables vars_init),
       Command_nop, Server_interrupt, Variables (show_variables vars_init)])"
    by (simp add: eval)
  have passes: "loop_body vars_init [[200, 0, 0]] =
     Next vars_init [[0, 0]]
       [Unknown_command 200, Server_interrupt, Variables (show_variables vars_init)]"
    "loop_body vars_init [[0], [2, 1, 200]] =
     Next vars_init [[], [2, 1, 200]]
       [Command_nop, Server_interrupt, Variables (show_variables vars_init)]"
    "loop_body vars_init [[2, 1, 200], [9]] =
     Next (vars_init[1 := 200, 5 := 0]) [[], [9]]
       [Command_set 1 200, Server_interrupt, Breaker_tripped,
        Variables (show_variables (vars_init[1 := 200, 5 := 0]))]"
    by (simp_all add: eval)
  show ?thesis
    using interrupt_after_each_command [where client = "[[], []]" and vars = vars_init
        and rest = "[]" and command = 0]
      interrupt_after_each_command [where client = "[[CMD_EXIT, 0], [0]]" and vars = vars_init
        and rest = "[0, 0]" and command = 0]
      interrupt_after_each_command [where client = "[[200, 0, 0]]" and vars = vars_init
        and rest = "[0, 0]" and command = 200]
      interrupt_after_each_command [where client = "[[0], [2, 1, 200]]" and vars = vars_init
        and rest = "[2, 1, 200]" and command = 0]
      interrupt_after_each_command [where client = "[[2, 1, 200], [9]]" and vars = vars_init
        and rest = "[1, 200, 9]" and command = 2]
      interrupt_after_each_command [where client = "[[0, 2, 1, 200], [9, 1, 0]]"
        and vars = vars_init and rest = "[]" and command = 0]
      run unknown passes
    by simp
qed

section \<open>The invariant of the interrupt\<close>

lemma server_interrupt_safe:
  assumes "vars_ok vars"
  shows "fst (server_interrupt vars) ! VAR_CIRCUIT_BREAKER = 0 \<or>
         (fst (server_interrupt vars) ! VAR_MIN_VOLTAGE \<le> fst (server_interrupt vars) ! VAR_VOLTAGE \<and>
          fst (server_interrupt vars) ! VAR_VOLTAGE \<le> fst (server_interrupt vars) ! VAR_MAX_VOLTAGE)"
  using assms by (auto simp: server_interrupt_eval enum_defs vars_ok_def)

lemma loop_body_safe:
  assumes "loop_body vars client = Next vars' client' out" and "vars_ok vars"
  shows "vars' ! VAR_CIRCUIT_BREAKER = 0 \<or>
         (vars' ! VAR_MIN_VOLTAGE \<le> vars' ! VAR_VOLTAGE \<and>
          vars' ! VAR_VOLTAGE \<le> vars' ! VAR_MAX_VOLTAGE)"
proof -
  from loop_body_interrupt [OF assms(1)] obtain vars1
    where res: "vars' = fst (server_interrupt vars1)"
    by blast
  have "length vars1 = length vars'"
    by (simp add: res)
  with loop_body_ok [OF assms] have "vars_ok vars1"
    by (simp add: vars_ok_def)
  from server_interrupt_safe [OF this] res show ?thesis
    by simp
qed

text \<open>
  C7. In every table the server can hold between two commands, starting from the initial
  table, the breaker is open or the voltage lies between \<open>min_voltage\<close> and
  \<open>max_voltage\<close>.
\<close>

theorem breaker_never_closed_out_of_range:
  assumes "reachable vars"
  shows "vars ! VAR_CIRCUIT_BREAKER = 0 \<or>
         (vars ! VAR_MIN_VOLTAGE \<le> vars ! VAR_VOLTAGE \<and>
          vars ! VAR_VOLTAGE \<le> vars ! VAR_MAX_VOLTAGE)"
  using assms
proof (induction rule: reachable.induct)
  case initial
  show ?case
    by (simp add: vars_init_nth enum_defs)
next
  case (pass vars client vars' client' out)
  from loop_body_safe [OF pass.hyps(2) reachable_ok [OF pass.hyps(1)]] show ?case .
qed

text \<open>
  The table after \<open>set voltage 250\<close> (breaker tripped) and the one after
  \<open>set voltage 236\<close> (breaker closed, voltage in range).
\<close>

theorem breaker_never_closed_out_of_range_witness:
  "reachable (vars_init[1 := 250, 5 := 0]) \<and>
   vars_init[1 := 250, 5 := 0] ! VAR_CIRCUIT_BREAKER = 0 \<and>
   reachable (vars_init[1 := 236]) \<and>
   vars_init[1 := 236] ! VAR_CIRCUIT_BREAKER = 1 \<and>
   vars_init[1 := 236] ! VAR_MIN_VOLTAGE \<le> vars_init[1 := 236] ! VAR_VOLTAGE \<and>
   vars_init[1 := 236] ! VAR_VOLTAGE \<le> vars_init[1 := 236] ! VAR_MAX_VOLTAGE"
proof -
  have "loop_body vars_init [[2, 1, 250]] =
          Next (vars_init[1 := 250, 5 := 0]) [[]]
            [Command_set 1 250, Server_interrupt, Breaker_tripped,
             Variables (show_variables (vars_init[1 := 250, 5 := 0]))]"
    by (simp add: loop_body_def read_into_def server_interrupt_eval vars_init_nth
          vars_init_length enum_defs)
  then have high: "reachable (vars_init[1 := 250, 5 := 0])"
    using reachable.initial by (rule reachable.pass [rotated])
  have "loop_body vars_init [[2, 1, 236]] =
          Next (vars_init[1 := 236]) [[]]
            [Command_set 1 236, Server_interrupt, Variables (show_variables (vars_init[1 := 236]))]"
    by (simp add: loop_body_def read_into_def server_interrupt_eval vars_init_nth
          vars_init_length enum_defs)
  then have inside: "reachable (vars_init[1 := 236])"
    using reachable.initial by (rule reachable.pass [rotated])
  show ?thesis
    using breaker_never_closed_out_of_range [OF high] breaker_never_closed_out_of_range [OF inside]
      high inside
    by (simp add: vars_init_nth vars_init_length enum_defs)
qed

section \<open>Nop\<close>

text \<open>In a reachable table the policy finds nothing to do.\<close>

lemma server_interrupt_twice:
  assumes "vars_ok vars"
  shows "server_interrupt (fst (server_interrupt vars)) =
           (fst (server_interrupt vars),
            [Server_interrupt, Variables (show_variables (fst (server_interrupt vars)))])"
  using assms by (auto simp: server_interrupt_eval enum_defs vars_ok_def)

lemma reachable_interrupt:
  assumes "reachable vars"
  shows "server_interrupt vars = (vars, [Server_interrupt, Variables (show_variables vars)])"
  using assms
proof (induction rule: reachable.induct)
  case initial
  show ?case
    by (simp add: server_interrupt_eval vars_init_nth)
next
  case (pass vars client vars' client' out)
  from loop_body_interrupt [OF pass.hyps(2)] obtain vars1
    where res: "vars' = fst (server_interrupt vars1)"
    by blast
  have "length vars1 = length vars'"
    by (simp add: res)
  with loop_body_ok [OF pass.hyps(2) reachable_ok [OF pass.hyps(1)]] have "vars_ok vars1"
    by (simp add: vars_ok_def)
  from server_interrupt_twice [OF this] res show ?case
    by simp
qed

text \<open>
  C6. In every table the server can hold between two commands, a pass that reads
  \<open>CMD_NOP\<close> hands on the same table; its output is the command line and the output of
  one interrupt, which does not trip.
\<close>

theorem nop_changes_nothing:
  assumes "reachable vars" and "concat client = CMD_NOP # rest"
  shows "\<exists>client'. concat client' = rest \<and>
           loop_body vars client =
             Next vars client' [Command_nop, Server_interrupt, Variables (show_variables vars)]"
proof (cases vars client rule: loop_body_cases)
  case (Nop client1)
  with assms(2) reachable_interrupt [OF assms(1)] show ?thesis
    by simp
qed (use assms(2) in \<open>auto simp: enum_defs\<close>)

theorem nop_changes_nothing_witness:
  "reachable (vars_init[1 := 250, 5 := 0]) \<and> concat [[CMD_NOP], [7]] = CMD_NOP # [7] \<and>
   loop_body (vars_init[1 := 250, 5 := 0]) [[CMD_NOP], [7]] =
     Next (vars_init[1 := 250, 5 := 0]) [[], [7]]
       [Command_nop, Server_interrupt, Variables (show_variables (vars_init[1 := 250, 5 := 0]))]"
proof -
  have "loop_body vars_init [[2, 1, 250]] =
          Next (vars_init[1 := 250, 5 := 0]) [[]]
            [Command_set 1 250, Server_interrupt, Breaker_tripped,
             Variables (show_variables (vars_init[1 := 250, 5 := 0]))]"
    by (simp add: loop_body_def read_into_def server_interrupt_eval vars_init_nth
          vars_init_length enum_defs)
  then have high: "reachable (vars_init[1 := 250, 5 := 0])"
    using reachable.initial by (rule reachable.pass [rotated])
  have bytes: "concat [[CMD_NOP], [7]] = CMD_NOP # [7]"
    by simp
  have pass: "loop_body (vars_init[1 := 250, 5 := 0]) [[CMD_NOP], [7]] =
     Next (fst (server_interrupt (vars_init[1 := 250, 5 := 0]))) [[], [7]]
       (Command_nop # snd (server_interrupt (vars_init[1 := 250, 5 := 0])))"
    by (simp add: loop_body_def read_into_def enum_defs split: prod.splits)
  show ?thesis
    using nop_changes_nothing [OF high bytes] high pass
    by auto
qed

section \<open>The snapshot\<close>

lemma variable_name_named:
  "(variable_name i False \<noteq> None) = (i \<le> 5)"
  "(\<exists>name. variable_name i False = Some name) = (i \<le> 5)"
  by (auto simp: variable_name_def enum_defs)

lemma variable_name_display:
  "variable_name i True = Some (spec_display_name i)"
proof -
  consider "i = 0" | "i = 1" | "i = 2" | "i = 3" | "i = 4" | "i = 5" | "5 < i"
    by linarith
  then show ?thesis
    by cases (simp_all add: variable_name_def spec_display_name_def enum_defs)
qed

lemma show_variables_indices:
  "map fst (show_variables vars) = filter (\<lambda>i. i \<le> 5 \<or> vars ! i \<noteq> 0) [0..<256]"
  by (simp add: show_variables_def variable_name_named comp_def)

text \<open>
  C8. For every table, the rows of \<open>show_variables\<close> are exactly the triples of an
  identifier below 256 that is one of the named ones (0 to 5) or holds a non-zero value,
  its display name and its current value; and the identifiers of the rows are strictly
  ascending, so that no identifier has two rows.
\<close>

theorem snapshot_contents:
  "(\<forall>i name val.
      ((i, name, val) \<in> set (show_variables vars)) =
        (i < 256 \<and> (i \<le> 5 \<or> vars ! i \<noteq> 0) \<and>
         name = Some (spec_display_name i) \<and> val = vars ! i)) \<and>
   sorted_wrt (<) (map fst (show_variables vars))"
proof (intro conjI allI)
  fix i name val
  show "((i, name, val) \<in> set (show_variables vars)) =
        (i < 256 \<and> (i \<le> 5 \<or> vars ! i \<noteq> 0) \<and>
         name = Some (spec_display_name i) \<and> val = vars ! i)"
    by (auto simp: show_variables_def variable_name_named variable_name_display)
next
  have "sorted_wrt (<) (filter (\<lambda>i. i \<le> 5 \<or> vars ! i \<noteq> 0) [0..<256])"
    by (rule sorted_wrt_filter) (rule sorted_wrt_upt)
  then show "sorted_wrt (<) (map fst (show_variables vars))"
    by (simp add: show_variables_indices)
qed

lemma vars_init_nth_rest: "6 \<le> i \<Longrightarrow> i < 256 \<Longrightarrow> vars_init ! i = 0"
  by (simp add: vars_init_def nth_append)

text \<open>
  The initial table with entry 77 set to 3: the row of entry 77 carries the synthesized
  name, \<open>amperage\<close> has a row though it is 0, and entry 6 has none.
\<close>

theorem snapshot_contents_witness:
  "(77, Some ''var[77]'', 3) \<in> set (show_variables (vars_init[77 := 3])) \<and>
   (1, Some ''voltage'', 240) \<in> set (show_variables (vars_init[77 := 3])) \<and>
   (2, Some ''amperage'', 0) \<in> set (show_variables (vars_init[77 := 3])) \<and>
   (6, Some ''var[6]'', 0) \<notin> set (show_variables (vars_init[77 := 3])) \<and>
   sorted_wrt (<) (map fst (show_variables (vars_init[77 := 3])))"
  using snapshot_contents [of "vars_init[77 := 3]"]
  by (simp add: spec_display_name_def decimal.simps vars_init_nth vars_init_nth_rest
        vars_init_length)

section \<open>Reading and writing the table\<close>

lemma unat_u8_bound: "unat (name :: u8) < 256"
  using unsigned_less [of name, where 'a = nat] by simp

lemma vars_init_default:
  "vars_init ! i =
     (if i = VAR_VOLTAGE then 240 else if i = VAR_MIN_VOLTAGE then 235
      else if i = VAR_MAX_VOLTAGE then 245 else if i = VAR_CIRCUIT_BREAKER then 1 else 0)"
  if "i < 256"
proof -
  consider "i = 0" | "i = 1" | "i = 2" | "i = 3" | "i = 4" | "i = 5" | "6 \<le> i"
    by linarith
  then show ?thesis
    using that by cases (simp_all add: vars_init_nth vars_init_nth_rest enum_defs)
qed

lemma loop_body_set:
  "loop_body vars ((CMD_SET_VARIABLE # name # val # seg) # segs) =
     Next (fst (server_interrupt (vars[unat name := val]))) (seg # segs)
       (Command_set name val # snd (server_interrupt (vars[unat name := val])))"
  by (simp add: loop_body_def read_into_def enum_defs split: prod.splits)

text \<open>
  C9. Every identifier byte is an index inside the table, so reading an entry never
  leaves the array; in the initial table the entry is the documented default (240, 235,
  245 and 1 for \<open>voltage\<close>, \<open>min_voltage\<close>, \<open>max_voltage\<close> and
  \<open>circuit_breaker\<close>, 0 for every other identifier). A complete set command is applied
  for every identifier and every value, without any check: the pass stores the value,
  after which the entry holds it and every other entry is as before, and the table still
  has its 256 entries; the interrupt then runs on that table.
\<close>

theorem vars_get_set_total:
  assumes "vars_ok vars"
  shows "unat name < length vars \<and> unat name < length vars_init \<and>
         vars_init ! unat name =
           (if unat name = VAR_VOLTAGE then 240 else if unat name = VAR_MIN_VOLTAGE then 235
            else if unat name = VAR_MAX_VOLTAGE then 245
            else if unat name = VAR_CIRCUIT_BREAKER then 1 else 0) \<and>
         loop_body vars ((CMD_SET_VARIABLE # name # val # seg) # segs) =
           Next (fst (server_interrupt (vars[unat name := val]))) (seg # segs)
             (Command_set name val # snd (server_interrupt (vars[unat name := val]))) \<and>
         vars[unat name := val] ! unat name = val \<and>
         (\<forall>i. i \<noteq> unat name \<longrightarrow> vars[unat name := val] ! i = vars ! i) \<and>
         vars_ok (vars[unat name := val])"
  using assms unat_u8_bound [of name] vars_init_default [of "unat name"]
  by (simp add: vars_ok_def vars_init_length loop_body_set)

text \<open>
  Identifier 200 is unnamed and starts at 0; setting it to 9 does not trip. Setting
  \<open>max_voltage\<close> (identifier 4) to 9 is accepted as well.
\<close>

theorem vars_get_set_total_witness:
  "vars_ok vars_init \<and> unat (200 :: u8) < length vars_init \<and>
   vars_init ! unat (200 :: u8) = 0 \<and> vars_init ! unat (4 :: u8) = 245 \<and>
   loop_body vars_init [[CMD_SET_VARIABLE, 200, 9]] =
     Next (vars_init[200 := 9]) [[]]
       [Command_set 200 9, Server_interrupt, Variables (show_variables (vars_init[200 := 9]))] \<and>
   vars_init[200 := 9] ! 200 = 9 \<and> vars_init[200 := 9] ! 5 = vars_init ! 5"
  using vars_get_set_total [OF vars_init_ok, of 200 9 "[]" "[]"]
    vars_get_set_total [OF vars_init_ok, of 4 9 "[]" "[]"] vars_init_ok
  by (simp add: server_interrupt_eval vars_init_nth vars_init_length enum_defs)

section \<open>Streams without short reads\<close>

text \<open>An empty segment is skipped by every read.\<close>

lemma loop_body_skip: "loop_body vars ([] # client) = loop_body vars client"
  by (simp add: loop_body_def read_into_def)

lemma process_skip:
  "process_client_commands vars ([] # client) = process_client_commands vars client"
  by (simp add: process_client_commands.simps [of vars "[] # client"]
        process_client_commands.simps [of vars client] loop_body_skip)

text \<open>A pass that starts on a non-empty segment.\<close>

lemma loop_body_head:
  "loop_body vars ((command # seg) # segs) =
     (if command = CMD_NOP then
        Next (fst (server_interrupt vars)) (seg # segs) (Command_nop # snd (server_interrupt vars))
      else if command = CMD_EXIT then Exit [Command_exit]
      else if command = CMD_SET_VARIABLE then
        (case read_into [0, 0] 2 (seg # segs) of
           (name_val, ignored, client2) \<Rightarrow>
             Next (fst (server_interrupt (vars[unat (name_val ! 0) := name_val ! 1]))) client2
               (Command_set (name_val ! 0) (name_val ! 1) #
                snd (server_interrupt (vars[unat (name_val ! 0) := name_val ! 1]))))
      else
        Next (fst (server_interrupt vars)) (seg # segs)
          (Unknown_command command # snd (server_interrupt vars)))"
  by (rule loop_body_command) simp

lemma process_set:
  "process_client_commands vars ((CMD_SET_VARIABLE # name # val # seg) # segs) =
     (case process_client_commands (fst (server_interrupt (vars[unat name := val]))) (seg # segs) of
        (e, vars', out) \<Rightarrow>
          (e, vars', Command_set name val # snd (server_interrupt (vars[unat name := val])) @ out))"
  by (simp add: process_client_commands.simps [of vars "(CMD_SET_VARIABLE # name # val # seg) # segs"]
        loop_body_set)

text \<open>
  When no argument read is cut short before the end of the stream, the call goes as if
  all the bytes had arrived at once.
\<close>

lemma process_complete:
  "complete_reads client \<Longrightarrow>
   process_client_commands vars client = process_client_commands vars [concat client]"
proof (induction "length (concat client)" arbitrary: client vars rule: less_induct)
  case less
  show ?case
  proof (cases "concat client")
    case Nil
    then show ?thesis
      by (simp add: process_end)
  next
    case (Cons command bytes)
    then obtain client1 where r1: "read_bytes 1 client = ([command], client1)"
      and rest: "concat client1 = bytes"
      using read_bytes_one by blast
    note left = process_client_commands.simps [of vars client] loop_body_command [OF r1, of vars]
    note right = process_client_commands.simps [of vars "[command # bytes]"]
      loop_body_head [of vars command bytes "[]"]
    consider "command = CMD_EXIT"
      | "command = CMD_SET_VARIABLE"
      | "command \<noteq> CMD_EXIT" "command \<noteq> CMD_SET_VARIABLE"
      by blast
    then show ?thesis
    proof cases
      case 1
      with Cons left right show ?thesis
        by (simp add: enum_defs)
    next
      case 3
      with less.prems r1 have "complete_reads client1"
        by (simp add: complete_reads.simps [of client])
      with less.hyps [of client1] Cons rest
      have "process_client_commands v client1 = process_client_commands v [bytes]" for v
        by simp
      with 3 Cons left right show ?thesis
        by simp
    next
      case 2
      obtain args client2 where r2: "read_bytes 2 client1 = (args, client2)"
        by (cases "read_bytes 2 client1")
      from less.prems r1 r2 2
      have together: "length args = 2 \<or> concat client2 = []" and tail: "complete_reads client2"
        by (simp_all add: complete_reads.simps [of client] enum_defs)
      have cat: "args @ concat client2 = bytes"
        using read_bytes_concat [OF r2] rest by simp
      have len: "length args \<le> 2"
        using read_bytes_length [OF r2] .
      have "length (concat client2) < length (concat client)"
        using cat Cons by (metis length_append length_Cons le_add2 le_imp_less_Suc)
      with less.hyps [of client2] tail
      have hyp: "process_client_commands v client2 = process_client_commands v [concat client2]" for v
        by simp
      show ?thesis
      proof (cases "length args = 2")
        case True
        then obtain a b where args: "args = [a, b]"
          by (cases args; cases "tl args") auto
        with cat have "bytes = a # b # concat client2"
          by simp
        with 2 Cons r2 args hyp left right show ?thesis
          by (simp add: read_into_def enum_defs)
      next
        case False
        with together have fin: "concat client2 = []"
          by simp
        with cat have bytes: "bytes = args"
          by simp
        from False len consider "args = []" | a where "args = [a]"
          by (cases args; cases "tl args") auto
        then show ?thesis
        proof cases
          case 1
          with 2 Cons r2 bytes fin left right show ?thesis
            by (simp add: read_into_def process_end enum_defs)
        next
          case 2
          with \<open>command = CMD_SET_VARIABLE\<close> Cons r2 bytes fin left right show ?thesis
            by (simp add: read_into_def process_end enum_defs)
        qed
      qed
    qed
  qed
qed

text \<open>Bytes that arrive all at once are such a stream.\<close>

lemma complete_reads_end: "concat client = [] \<Longrightarrow> complete_reads client"
  by (simp add: complete_reads.simps [of client] read_bytes_empty)

lemma complete_reads_single: "complete_reads [bytes]"
proof (induction "length bytes" arbitrary: bytes rule: less_induct)
  case less
  show ?case
  proof (cases bytes)
    case Nil
    then show ?thesis
      by (simp add: complete_reads_end)
  next
    case (Cons command rest)
    have unfold: "complete_reads [command # rest] =
      (if command = CMD_EXIT then True
       else if command = CMD_SET_VARIABLE then
         (case read_bytes 2 [rest] of
            (args, client2) \<Rightarrow>
              (length args = 2 \<or> concat client2 = []) \<and> complete_reads client2)
       else complete_reads [rest])"
      by (simp add: complete_reads.simps [of "[command # rest]"])
    have one: "complete_reads [rest]"
      using less [of rest] Cons by simp
    have two: "complete_reads [drop 2 rest]"
      using less [of "drop 2 rest"] Cons by simp
    have "(length (take 2 rest) = 2 \<or> drop 2 rest = [])"
      by (cases "2 \<le> length rest") auto
    with one two have "case read_bytes 2 [rest] of
            (args, client2) \<Rightarrow>
              (length args = 2 \<or> concat client2 = []) \<and> complete_reads client2"
      by (simp add: complete_reads_end)
    with one show ?thesis
      unfolding Cons unfold by simp
  qed
qed

text \<open>The condition, segment by segment.\<close>

lemma complete_reads_Nil:
  "complete_reads [] = True" "complete_reads ([] # segs) = complete_reads segs"
  by (simp_all add: complete_reads.simps [of "[]"] complete_reads.simps [of "[] # segs"]
        complete_reads.simps [of segs])

lemma complete_reads_Cons:
  "complete_reads ((command # seg) # segs) =
     (if command = CMD_EXIT then True
      else if command = CMD_SET_VARIABLE then
        (case read_bytes 2 (seg # segs) of
           (args, client2) \<Rightarrow>
             (length args = 2 \<or> concat client2 = []) \<and> complete_reads client2)
      else complete_reads (seg # segs))"
  by (simp add: complete_reads.simps [of "(command # seg) # segs"])

section \<open>Sequences of complete set commands\<close>

lemma process_sets_out:
  "process_client_commands vars [concat (map set_bytes commands)] =
     (Closed, run_sets vars commands, run_out vars commands)"
proof (induction vars commands rule: run_sets.induct)
  case (1 vars)
  show ?case by (simp add: process_end)
next
  case (2 vars name val commands)
  then show ?case
    by (simp add: process_set)
qed

text \<open>The interrupt writes to entry \<open>circuit_breaker\<close> only, and only a zero.\<close>

lemma server_interrupt_frame:
  "i \<noteq> VAR_CIRCUIT_BREAKER \<Longrightarrow> fst (server_interrupt vars) ! i = vars ! i"
  by (simp add: server_interrupt_eval enum_defs)

lemma unat_eq_iff_u8: "(unat (a :: u8) = unat b) = (a = b)"
  by (rule word_unat_eq_iff [symmetric])

lemma stored_nth:
  assumes "vars_ok vars"
  shows "vars[unat name := val] ! unat (n :: u8) = (if n = name then val else vars ! unat n)"
proof (cases "n = name")
  case True
  with assms unat_u8_bound [of name] show ?thesis
    by (simp add: vars_ok_def)
next
  case False
  then have "unat name \<noteq> unat n"
    by (simp add: unat_eq_iff_u8)
  with False show ?thesis by simp
qed

lemma most_recent_Cons:
  "most_recent ((name, val) # commands) n =
     (case most_recent commands n of
        None \<Rightarrow> if n = name then Some val else None
      | Some v \<Rightarrow> Some v)"
  by (simp add: most_recent_def map_add_def split: option.splits)

lemma run_sets_frame:
  assumes "vars_ok vars" and "unat n \<noteq> VAR_CIRCUIT_BREAKER"
  shows "run_sets vars commands ! unat n =
           (case most_recent commands n of None \<Rightarrow> vars ! unat n | Some v \<Rightarrow> v)"
  using assms(1)
proof (induction vars commands rule: run_sets.induct)
  case (1 vars)
  show ?case by (simp add: most_recent_def)
next
  case (2 vars name val commands)
  have ok: "vars_ok (fst (server_interrupt (vars[unat name := val])))"
    using "2.prems" by (simp add: vars_ok_def)
  have "fst (server_interrupt (vars[unat name := val])) ! unat n =
          (if n = name then val else vars ! unat n)"
    using assms(2) stored_nth [OF "2.prems"] by (simp add: server_interrupt_frame)
  with "2.IH" [OF ok] show ?case
    by (auto simp: most_recent_Cons split: option.splits)
qed

text \<open>The output after the last trip line, and the set commands an output reports.\<close>

lemma since_trip_None: "(since_trip out = None) = (Breaker_tripped \<notin> set out)"
  by (induction out) (auto split: option.splits)

lemma since_trip_split:
  "out = pre @ Breaker_tripped # post \<Longrightarrow> Breaker_tripped \<notin> set post \<Longrightarrow>
   since_trip out = Some post"
proof (induction pre arbitrary: out)
  case Nil
  then show ?case
    using since_trip_None [of post] by simp
next
  case (Cons ev pre)
  then show ?case by simp
qed

lemma since_trip_append:
  "since_trip (xs @ ys) =
     (case since_trip ys of
        Some post \<Rightarrow> Some post
      | None \<Rightarrow> map_option (\<lambda>post. post @ ys) (since_trip xs))"
  by (induction xs) (auto split: option.splits)

lemma logged_sets_append: "logged_sets (xs @ ys) = logged_sets xs @ logged_sets ys"
  by (induction xs rule: logged_sets.induct) auto

lemma logged_sets_interrupt: "logged_sets (snd (server_interrupt vars)) = []"
  by (simp add: server_interrupt_eval)

lemma logged_sets_run_out: "logged_sets (run_out vars commands) = commands"
  by (induction vars commands rule: run_out.induct)
     (auto simp: logged_sets_append logged_sets_interrupt)

text \<open>
  The breaker at the end: what the commands gave it when no interrupt tripped, and
  otherwise what the commands after the last trip gave it, or 0.
\<close>

lemma run_sets_breaker_exact:
  assumes "vars_ok vars" and "unat n = VAR_CIRCUIT_BREAKER"
  shows "run_sets vars commands ! unat n =
           (case since_trip (run_out vars commands) of
              None \<Rightarrow>
                (case most_recent commands n of None \<Rightarrow> vars ! unat n | Some v \<Rightarrow> v)
            | Some post \<Rightarrow>
                (case most_recent (logged_sets post) n of None \<Rightarrow> 0 | Some v \<Rightarrow> v))"
  using assms(1)
proof (induction vars commands rule: run_sets.induct)
  case (1 vars)
  show ?case by (simp add: most_recent_def)
next
  case (2 vars name val commands)
  let ?stored = "vars[unat name := val]"
  let ?vars1 = "fst (server_interrupt ?stored)"
  let ?rest = "run_out ?vars1 commands"
  have ok: "vars_ok ?stored" "vars_ok ?vars1"
    using "2.prems" by (simp_all add: vars_ok_def)
  have stored: "?stored ! unat n = (if n = name then val else vars ! unat n)"
    by (rule stored_nth [OF "2.prems"])
  note hyp = "2.IH" [OF ok(2)]
  show ?case
  proof (cases "since_trip ?rest")
    case (Some post)
    with hyp show ?thesis
      by (simp add: since_trip_append)
  next
    case None
    show ?thesis
    proof (cases "?stored ! 5 \<noteq> 0 \<and> (?stored ! 1 < ?stored ! 3 \<or> ?stored ! 4 < ?stored ! 1)")
      case True
      then have trip: "server_interrupt ?stored =
          (?stored[5 := 0],
           [Server_interrupt, Breaker_tripped, Variables (show_variables (?stored[5 := 0]))])"
        by (simp add: server_interrupt_eval)
      have "?vars1 ! unat n = 0"
        using trip ok(1) assms(2) by (simp add: vars_ok_def enum_defs)
      with hyp None trip show ?thesis
        by (simp add: since_trip_append logged_sets_append logged_sets_run_out
              split: option.splits)
    next
      case False
      then have calm: "server_interrupt ?stored =
          (?stored, [Server_interrupt, Variables (show_variables ?stored)])"
        by (simp add: server_interrupt_eval)
      with hyp None stored show ?thesis
        by (auto simp: since_trip_append most_recent_Cons split: option.splits)
    qed
  qed
qed

text \<open>
  C3, as the code has it. Let a stream carry the bytes of a sequence of set commands and
  let every argument read receive both of its bytes, so that the commands are complete.
  Processed from a table of 256 entries (the initial table is one), each command followed
  by its interrupt, the call returns, its output reports exactly these commands, and every
  identifier other than \<open>circuit_breaker\<close> holds the value of its most recent set
  command, or what it held at the start when no command names it. So does
  \<open>circuit_breaker\<close> when no interrupt of the call trips the breaker. When one does,
  \<open>circuit_breaker\<close> holds the value of its most recent set command among those
  processed after the last trip, or 0 when there is none.
\<close>

theorem set_variables_frame:
  assumes "vars_ok vars"
    and "complete_reads client"
    and "concat client = concat (map set_bytes commands)"
    and "process_client_commands vars client = (e, vars', out)"
  shows "e = Closed \<and> logged_sets out = commands \<and>
         (\<forall>name. unat name \<noteq> VAR_CIRCUIT_BREAKER \<longrightarrow>
            vars' ! unat name =
              (case most_recent commands name of
                 None \<Rightarrow> vars ! unat name | Some val \<Rightarrow> val)) \<and>
         (\<forall>name. unat name = VAR_CIRCUIT_BREAKER \<longrightarrow>
            (Breaker_tripped \<notin> set out \<longrightarrow>
               vars' ! unat name =
                 (case most_recent commands name of
                    None \<Rightarrow> vars ! unat name | Some val \<Rightarrow> val)) \<and>
            (\<forall>pre post.
               out = pre @ Breaker_tripped # post \<and> Breaker_tripped \<notin> set post \<longrightarrow>
               vars' ! unat name =
                 (case most_recent (logged_sets post) name of
                    None \<Rightarrow> 0 | Some val \<Rightarrow> val)))"
proof -
  from process_complete [OF assms(2), of vars] assms(3,4)
  have "process_client_commands vars [concat (map set_bytes commands)] = (e, vars', out)"
    by simp
  then have res: "e = Closed" "vars' = run_sets vars commands" "out = run_out vars commands"
    by (simp_all add: process_sets_out)
  have calm: "vars' ! unat name =
        (case most_recent commands name of None \<Rightarrow> vars ! unat name | Some val \<Rightarrow> val)"
    if "unat name = VAR_CIRCUIT_BREAKER" "Breaker_tripped \<notin> set out" for name
    using run_sets_breaker_exact [OF assms(1) that(1), of commands] that(2) res
      since_trip_None [of out]
    by simp
  have tripped: "vars' ! unat name =
        (case most_recent (logged_sets post) name of None \<Rightarrow> 0 | Some val \<Rightarrow> val)"
    if "unat name = VAR_CIRCUIT_BREAKER" "out = pre @ Breaker_tripped # post"
      "Breaker_tripped \<notin> set post" for name pre post
    using run_sets_breaker_exact [OF assms(1) that(1), of commands] res
      since_trip_split [OF that(2,3)]
    by simp
  from res run_sets_frame [OF assms(1)] calm tripped show ?thesis
    by (simp add: logged_sets_run_out)
qed

text \<open>
  Three calls from the initial table. Setting the breaker to 7 and the amperage to 3 trips
  nothing, and both values stand. A voltage of 200 trips the breaker; once the voltage is
  back at 240 the command that sets the breaker to 1 stands. A voltage of 200 followed
  by a command for entry 7 leaves the breaker at 0.
\<close>

theorem set_variables_frame_witness:
  "process_client_commands vars_init [[2, 5, 7, 2, 2, 3]] =
     (Closed, vars_init[5 := 7, 2 := 3],
      [Command_set 5 7, Server_interrupt, Variables (show_variables (vars_init[5 := 7])),
       Command_set 2 3, Server_interrupt,
         Variables (show_variables (vars_init[5 := 7, 2 := 3]))]) \<and>
   vars_init[5 := 7, 2 := 3] ! unat (5 :: u8) = 7 \<and>
   vars_init[5 := 7, 2 := 3] ! unat (2 :: u8) = 3 \<and>
   vars_init[5 := 7, 2 := 3] ! unat (1 :: u8) = vars_init ! unat (1 :: u8) \<and>
   process_client_commands vars_init [[2, 1, 200], [2, 1, 240, 2, 5, 1]] =
     (Closed, vars_init[1 := 200, 5 := 0, 1 := 240, 5 := 1],
      [Command_set 1 200, Server_interrupt, Breaker_tripped,
         Variables (show_variables (vars_init[1 := 200, 5 := 0])),
       Command_set 1 240, Server_interrupt,
         Variables (show_variables (vars_init[1 := 200, 5 := 0, 1 := 240])),
       Command_set 5 1, Server_interrupt,
         Variables (show_variables (vars_init[1 := 200, 5 := 0, 1 := 240, 5 := 1]))]) \<and>
   vars_init[1 := 200, 5 := 0, 1 := 240, 5 := 1] ! unat (5 :: u8) = 1 \<and>
   vars_init[1 := 200, 5 := 0, 1 := 240, 5 := 1] ! unat (1 :: u8) = 240 \<and>
   process_client_commands vars_init [[2, 1, 200, 2, 7, 3]] =
     (Closed, vars_init[1 := 200, 5 := 0, 7 := 3],
      [Command_set 1 200, Server_interrupt, Breaker_tripped,
         Variables (show_variables (vars_init[1 := 200, 5 := 0])),
       Command_set 7 3, Server_interrupt,
         Variables (show_variables (vars_init[1 := 200, 5 := 0, 7 := 3]))]) \<and>
   vars_init[1 := 200, 5 := 0, 7 := 3] ! unat (5 :: u8) = 0 \<and>
   vars_init[1 := 200, 5 := 0, 7 := 3] ! unat (7 :: u8) = 3"
proof -
  note eval = process_client_commands.simps loop_body_def read_into_def
    server_interrupt_eval vars_init_nth vars_init_length enum_defs
  let ?out_a = "[Command_set 5 7, Server_interrupt, Variables (show_variables (vars_init[5 := 7])),
       Command_set 2 3, Server_interrupt,
         Variables (show_variables (vars_init[5 := 7, 2 := 3]))]"
  let ?pre_b = "[Command_set 1 200, Server_interrupt]"
  let ?post_b = "[Variables (show_variables (vars_init[1 := 200, 5 := 0])),
       Command_set 1 240, Server_interrupt,
         Variables (show_variables (vars_init[1 := 200, 5 := 0, 1 := 240])),
       Command_set 5 1, Server_interrupt,
         Variables (show_variables (vars_init[1 := 200, 5 := 0, 1 := 240, 5 := 1]))]"
  let ?post_c = "[Variables (show_variables (vars_init[1 := 200, 5 := 0])),
       Command_set 7 3, Server_interrupt,
         Variables (show_variables (vars_init[1 := 200, 5 := 0, 7 := 3]))]"
  have reads: "complete_reads [[2, 5, 7, 2, 2, 3]]"
    "complete_reads [[2, 1, 200], [2, 1, 240, 2, 5, 1]]"
    "complete_reads [[2, 1, 200, 2, 7, 3]]"
    by (simp_all add: complete_reads_Cons complete_reads_Nil enum_defs)
  have bytes: "concat [[2, 5, 7, 2, 2, 3]] = concat (map set_bytes [(5, 7), (2, 3)])"
    "concat [[2, 1, 200], [2, 1, 240, 2, 5, 1]] =
       concat (map set_bytes [(1, 200), (1, 240), (5, 1)])"
    "concat [[2, 1, 200, 2, 7, 3]] = concat (map set_bytes [(1, 200), (7, 3)])"
    by (simp_all add: enum_defs)
  have run_a: "process_client_commands vars_init [[2, 5, 7, 2, 2, 3]] =
     (Closed, vars_init[5 := 7, 2 := 3], ?out_a)"
    by (simp add: eval)
  have run_b: "process_client_commands vars_init [[2, 1, 200], [2, 1, 240, 2, 5, 1]] =
     (Closed, vars_init[1 := 200, 5 := 0, 1 := 240, 5 := 1], ?pre_b @ Breaker_tripped # ?post_b)"
    by (simp add: eval)
  have run_c: "process_client_commands vars_init [[2, 1, 200, 2, 7, 3]] =
     (Closed, vars_init[1 := 200, 5 := 0, 7 := 3], ?pre_b @ Breaker_tripped # ?post_c)"
    by (simp add: eval)
  note a = set_variables_frame [OF vars_init_ok reads(1) bytes(1) run_a]
  note b = set_variables_frame [OF vars_init_ok reads(2) bytes(2) run_b]
  note c = set_variables_frame [OF vars_init_ok reads(3) bytes(3) run_c]
  have five: "unat (5 :: u8) = VAR_CIRCUIT_BREAKER"
    by (simp add: enum_defs)
  have calm: "Breaker_tripped \<notin> set ?out_a"
    by simp
  have quiet: "Breaker_tripped \<notin> set ?post_b" "Breaker_tripped \<notin> set ?post_c"
    by simp_all
  from a five calm
  have a5: "vars_init[5 := 7, 2 := 3] ! unat (5 :: u8) =
      (case most_recent [(5, 7), (2, 3)] 5 of None \<Rightarrow> vars_init ! unat (5 :: u8) | Some val \<Rightarrow> val)"
    by blast
  from a have a_other: "\<forall>name. unat name \<noteq> VAR_CIRCUIT_BREAKER \<longrightarrow>
      vars_init[5 := 7, 2 := 3] ! unat name =
        (case most_recent [(5, 7), (2, 3)] name of
           None \<Rightarrow> vars_init ! unat name | Some val \<Rightarrow> val)"
    by blast
  from b five quiet(1)
  have b5: "vars_init[1 := 200, 5 := 0, 1 := 240, 5 := 1] ! unat (5 :: u8) =
      (case most_recent (logged_sets ?post_b) 5 of None \<Rightarrow> 0 | Some val \<Rightarrow> val)"
    by blast
  from b have b_other: "\<forall>name. unat name \<noteq> VAR_CIRCUIT_BREAKER \<longrightarrow>
      vars_init[1 := 200, 5 := 0, 1 := 240, 5 := 1] ! unat name =
        (case most_recent [(1, 200), (1, 240), (5, 1)] name of
           None \<Rightarrow> vars_init ! unat name | Some val \<Rightarrow> val)"
    by blast
  from c five quiet(2)
  have c5: "vars_init[1 := 200, 5 := 0, 7 := 3] ! unat (5 :: u8) =
      (case most_recent (logged_sets ?post_c) 5 of None \<Rightarrow> 0 | Some val \<Rightarrow> val)"
    by blast
  from c have c_other: "\<forall>name. unat name \<noteq> VAR_CIRCUIT_BREAKER \<longrightarrow>
      vars_init[1 := 200, 5 := 0, 7 := 3] ! unat name =
        (case most_recent [(1, 200), (7, 3)] name of
           None \<Rightarrow> vars_init ! unat name | Some val \<Rightarrow> val)"
    by blast
  from a5 a_other [rule_format, of 2] a_other [rule_format, of 1]
    b5 b_other [rule_format, of 1] c5 c_other [rule_format, of 7] run_a run_b run_c
  show ?thesis
    by (simp add: most_recent_def enum_defs)
qed

text \<open>
  C3 as the specification states it fails: the single command \<open>set voltage 200\<close> from
  the initial table leaves \<open>circuit_breaker\<close> at 0, though no command names it and it
  started at 1.
\<close>

theorem set_variables_frame_counterexample:
  "concat [[2, 1, 200]] = concat (map set_bytes [(1, 200)]) \<and>
   process_client_commands vars_init [[2, 1, 200]] =
     (Closed, vars_init[1 := 200, 5 := 0],
      [Command_set 1 200, Server_interrupt, Breaker_tripped,
       Variables (show_variables (vars_init[1 := 200, 5 := 0]))]) \<and>
   most_recent [(1, 200)] 5 = None \<and>
   vars_init ! 5 = 1 \<and> vars_init[1 := 200, 5 := 0] ! 5 = 0"
  by (simp add: most_recent_def process_client_commands.simps loop_body_def
        read_into_def server_interrupt_eval vars_init_nth vars_init_length enum_defs)

section \<open>What the outcome of a call depends on\<close>

text \<open>
  C10, as the code has it. The outcome of a call (how it ends, the final table and the
  output) is determined by the table and the bytes alone as long as no argument read is
  cut short before the end of the stream: two such deliveries of the same bytes give the
  same outcome.
\<close>

theorem outcome_of_complete_reads:
  assumes "complete_reads client1" and "complete_reads client2"
    and "concat client1 = concat client2"
  shows "process_client_commands vars client1 = process_client_commands vars client2"
  using process_complete [OF assms(1), of vars] process_complete [OF assms(2), of vars] assms(3)
  by simp

text \<open>
  \<open>set voltage 240\<close> and \<open>nop\<close>: the command byte, then the two argument bytes, then
  the nop in three segments, and the four bytes at once.
\<close>

theorem outcome_of_complete_reads_witness:
  "complete_reads [[2], [1, 240], [0]] \<and> complete_reads [[2, 1, 240, 0]] \<and>
   concat [[2], [1, 240], [0]] = concat [[2, 1, 240, 0 :: u8]] \<and>
   process_client_commands vars_init [[2], [1, 240], [0]] =
     process_client_commands vars_init [[2, 1, 240, 0]] \<and>
   process_client_commands vars_init [[2, 1, 240, 0]] =
     (Closed, vars_init[1 := 240],
      [Command_set 1 240, Server_interrupt, Variables (show_variables (vars_init[1 := 240])),
       Command_nop, Server_interrupt, Variables (show_variables (vars_init[1 := 240]))])"
proof -
  have parts: "complete_reads [[2], [1, 240], [0]]"
    by (simp add: complete_reads_Cons complete_reads_Nil enum_defs)
  have whole: "complete_reads [[2, 1, 240, 0]]"
    by (rule complete_reads_single)
  have bytes: "concat [[2], [1, 240], [0]] = concat [[2, 1, 240, 0 :: u8]]"
    by simp
  have run: "process_client_commands vars_init [[2, 1, 240, 0]] =
     (Closed, vars_init[1 := 240],
      [Command_set 1 240, Server_interrupt, Variables (show_variables (vars_init[1 := 240])),
       Command_nop, Server_interrupt, Variables (show_variables (vars_init[1 := 240]))])"
    by (simp add: process_client_commands.simps loop_body_def read_into_def
          server_interrupt_eval vars_init_nth vars_init_length enum_defs)
  show ?thesis
    using outcome_of_complete_reads [OF parts whole bytes, of vars_init] parts whole run
    by simp
qed

text \<open>
  C10 as stated fails: the outcome is not determined by the table and the bytes. The three
  bytes of \<open>set voltage 240\<close> leave the initial table as it is when they arrive together.
  When the value byte arrives after the argument read has returned, the same three bytes
  set the voltage to 0, which trips the breaker, and the value byte is then taken for a
  command.
\<close>

theorem outcome_depends_on_segments_counterexample:
  "concat [[2, 1, 240]] = concat [[2, 1], [240 :: u8]] \<and>
   process_client_commands vars_init [[2, 1, 240]] =
     (Closed, vars_init[1 := 240],
      [Command_set 1 240, Server_interrupt, Variables (show_variables (vars_init[1 := 240]))]) \<and>
   process_client_commands vars_init [[2, 1], [240]] =
     (Closed, vars_init[1 := 0, 5 := 0],
      [Command_set 1 0, Server_interrupt, Breaker_tripped,
         Variables (show_variables (vars_init[1 := 0, 5 := 0])),
       Unknown_command 240, Server_interrupt,
         Variables (show_variables (vars_init[1 := 0, 5 := 0]))]) \<and>
   vars_init[1 := 240] ! 5 = 1 \<and> vars_init[1 := 0, 5 := 0] ! 5 = 0"
  by (simp add: process_client_commands.simps loop_body_def read_into_def
        server_interrupt_eval vars_init_nth vars_init_length enum_defs)

end
